theory Spec2Isabelle
  imports Main "HOL-Library.Monad_Syntax" "HOL-Library.Product_Lexorder"
begin

section \<open>Errors\<close>

text \<open>
  The exceptions of \<^verbatim>\<open>chrompoly.pyx\<close> as values. \<open>ValueError\<close> carries its message;
  \<open>KeyboardInterrupt\<close> is what \<^verbatim>\<open>sig_check()\<close> raises when an interrupt is pending;
  \<open>TypeError\<close> stands for every failure of Python's dynamic typing (an operation applied
  to an object of the wrong kind); \<open>StopIteration\<close> is \<^verbatim>\<open>next\<close> on an exhausted iterator;
  \<open>OutOfBounds\<close> marks an access outside a C array, which the source does not check.
\<close>

datatype error = ValueError string | KeyboardInterrupt | TypeError | StopIteration | OutOfBounds

section \<open>Polynomials over the integers\<close>

text \<open>
  Modelled from the spec: the polynomial ring \<^verbatim>\<open>ZZ['x']\<close> is a collaborator of the
  module (exact integer polynomial arithmetic). A polynomial is its coefficient list
  from degree 0 upward without trailing zeros, so that equal polynomials are equal lists.
\<close>

type_synonym poly = "int list"

definition pnorm :: "int list \<Rightarrow> poly" where
  "pnorm p = rev (dropWhile (\<lambda>c. c = 0) (rev p))"

definition coeff :: "int list \<Rightarrow> nat \<Rightarrow> int" where
  "coeff p k = (if k < length p then p ! k else 0)"

fun padd_raw :: "int list \<Rightarrow> int list \<Rightarrow> int list" where
  "padd_raw [] q = q"
| "padd_raw p [] = p"
| "padd_raw (a # p) (b # q) = (a + b) # padd_raw p q"

definition smult :: "int \<Rightarrow> int list \<Rightarrow> int list" where
  "smult c p = map (\<lambda>a. c * a) p"

fun pmul_raw :: "int list \<Rightarrow> int list \<Rightarrow> int list" where
  "pmul_raw [] q = []"
| "pmul_raw (a # p) q = padd_raw (smult a q) (0 # pmul_raw p q)"

definition padd :: "poly \<Rightarrow> poly \<Rightarrow> poly" where
  "padd p q = pnorm (padd_raw p q)"

definition psub :: "poly \<Rightarrow> poly \<Rightarrow> poly" where
  "psub p q = pnorm (padd_raw p (smult (- 1) q))"

definition pmul :: "poly \<Rightarrow> poly \<Rightarrow> poly" where
  "pmul p q = pnorm (pmul_raw p q)"

primrec ppow :: "poly \<Rightarrow> nat \<Rightarrow> poly" where
  "ppow p 0 = [1]"
| "ppow p (Suc n) = pmul p (ppow p n)"

definition pprod :: "poly list \<Rightarrow> poly" where
  "pprod ps = foldr pmul ps [1]"

definition pone :: poly where
  "pone = [1]"

definition pzero :: poly where
  "pzero = []"

definition pgen :: poly where
  "pgen = [0, 1]"

fun peval :: "int list \<Rightarrow> int \<Rightarrow> int" where
  "peval [] x = 0"
| "peval (a # p) x = a + x * peval p x"

text \<open>The closed form \<^verbatim>\<open>x * (x - 1) ** (n - 1)\<close> of both algorithms' tree case.\<close>

definition tree_poly :: "nat \<Rightarrow> poly" where
  "tree_poly n = pmul pgen (ppow (psub pgen pone) (n - 1))"

section \<open>The contraction counter\<close>

text \<open>
  \<^verbatim>\<open>sig_check()\<close>: the interrupt state of the process is \<open>None\<close> when no interrupt
  will arrive, and \<open>Some k\<close> when one arrives after \<open>k\<close> more checks have passed.
\<close>

definition sig_check :: "nat option \<Rightarrow> error + nat option" where
  "sig_check s = (case s of None \<Rightarrow> Inr None
                  | Some 0 \<Rightarrow> Inl KeyboardInterrupt
                  | Some (Suc k) \<Rightarrow> Inr (Some k))"

text \<open>
  The chord arrays \<^verbatim>\<open>chords1\<close>, \<^verbatim>\<open>chords2\<close> with their length \<^verbatim>\<open>num_chords\<close> are one list of
  pairs. \<^verbatim>\<open>parent\<close> is the C array read as memory: a total function whose values outside
  the entries the breadth first search wrote are arbitrary.
\<close>

type_synonym chord = "int \<times> int"

text \<open>\<^verbatim>\<open>{x1, parent[z]}\<close> as an ordered chord (lines 289--294 and 303--308).\<close>

definition parent_chord :: "(int \<Rightarrow> int) \<Rightarrow> int \<Rightarrow> int \<Rightarrow> chord" where
  "parent_chord parent z x1 = (if x1 > parent z then (x1, parent z) else (parent z, x1))"

text \<open>
  The loop of lines 283--300 over the chords that follow chord \<open>i\<close>: it returns the
  insertion list, \<^verbatim>\<open>parent_checked\<close>, and the chords from the final \<^verbatim>\<open>j\<close> on.
\<close>

fun scan_chords :: "(int \<Rightarrow> int) \<Rightarrow> int \<Rightarrow> int \<Rightarrow> chord list \<Rightarrow> chord list \<Rightarrow> bool
    \<Rightarrow> chord list \<times> bool \<times> chord list" where
  "scan_chords parent z x1 [] ins pc = (ins, pc, [])"
| "scan_chords parent z x1 ((c1, xj) # rest) ins pc =
     (if c1 = z then
        let pc1 = (if parent z > xj then True else pc);
            ins1 = (if parent z > xj \<and> parent x1 \<noteq> parent z
                    then ins @ [parent_chord parent z x1] else ins);
            ins2 = (if parent x1 \<noteq> xj then ins1 @ [(x1, xj)] else ins1)
        in scan_chords parent z x1 rest ins2 pc1
      else (ins, pc, (c1, xj) # rest))"

text \<open>The merge of lines 312--344; the first list is the remaining chords.\<close>

fun merge_chords :: "chord list \<Rightarrow> chord list \<Rightarrow> chord list" where
  "merge_chords [] ins = ins"
| "merge_chords cs [] = cs"
| "merge_chords ((c1, c2) # cs) ((n1, n2) # ins) =
     (if c1 > n1 \<or> (c1 = n1 \<and> c2 > n2) then (c1, c2) # merge_chords cs ((n1, n2) # ins)
      else if c1 < n1 \<or> (c1 = n1 \<and> c2 < n2) then (n1, n2) # merge_chords ((c1, c2) # cs) ins
      else (c1, c2) # merge_chords cs ins)"

text \<open>The chord list of the graph after contracting chord \<open>i\<close> (lines 278--344).\<close>

definition new_chords :: "(int \<Rightarrow> int) \<Rightarrow> chord list \<Rightarrow> nat \<Rightarrow> chord list" where
  "new_chords parent chords i =
     (let z = fst (chords ! i); x1 = snd (chords ! i);
          r = scan_chords parent z x1 (drop (Suc i) chords) [] False;
          ins = fst r; pc = fst (snd r); rest = snd (snd r);
          ins' = (if \<not> pc \<and> parent x1 \<noteq> parent z then ins @ [parent_chord parent z x1] else ins)
      in merge_chords rest ins')"

text \<open>\<^verbatim>\<open>mpz_add_ui(tot[nverts], tot[nverts], 1)\<close> on the histogram array.\<close>

definition tot_incr :: "nat \<Rightarrow> int list \<times> nat option \<Rightarrow> error + (int list \<times> nat option)" where
  "tot_incr nverts st =
     (if nverts < length (fst st) then Inr ((fst st)[nverts := fst st ! nverts + 1], snd st)
      else Inl OutOfBounds)"

text \<open>
  \<^verbatim>\<open>contract_and_count\<close>, and its \<^verbatim>\<open>for i in range(num_chords)\<close> loop as \<open>cc_loop\<close>. The
  state is the histogram \<^verbatim>\<open>tot\<close> and the interrupt state. \<^verbatim>\<open>nverts\<close> is a C int: a call
  that would pass \<open>nverts - 1 = -1\<close> on can only end in a write before the start of
  \<^verbatim>\<open>tot\<close>, and is \<open>OutOfBounds\<close> here.
\<close>

function contract_and_count :: "chord list \<Rightarrow> nat \<Rightarrow> (int \<Rightarrow> int) \<Rightarrow> int list \<times> nat option
      \<Rightarrow> error + (int list \<times> nat option)"
  and cc_loop :: "chord list \<Rightarrow> nat \<Rightarrow> nat \<Rightarrow> (int \<Rightarrow> int) \<Rightarrow> int list \<times> nat option
      \<Rightarrow> error + (int list \<times> nat option)" where
  "contract_and_count chords nverts parent st =
     (if chords = [] then tot_incr nverts st
      else case cc_loop chords 0 nverts parent st of
             Inl e \<Rightarrow> Inl e
           | Inr st' \<Rightarrow> tot_incr nverts st')"
| "cc_loop chords i nverts parent st =
     (if length chords \<le> i then Inr st
      else case sig_check (snd st) of
             Inl e \<Rightarrow> Inl e
           | Inr sg \<Rightarrow>
               if nverts = 0 then Inl OutOfBounds
               else case contract_and_count (new_chords parent chords i) (nverts - 1) parent (fst st, sg) of
                      Inl e \<Rightarrow> Inl e
                    | Inr st' \<Rightarrow> cc_loop chords (Suc i) nverts parent st')"
  by pat_completeness auto
termination
  by (relation "measures [
        (\<lambda>x. case x of Inl (chords, nverts, parent, st) \<Rightarrow> nverts
                  | Inr (chords, i, nverts, parent, st) \<Rightarrow> nverts),
        (\<lambda>x. case x of Inl (chords, nverts, parent, st) \<Rightarrow> 1 | Inr _ \<Rightarrow> 0),
        (\<lambda>x. case x of Inl _ \<Rightarrow> 0
                  | Inr (chords, i, nverts, parent, st) \<Rightarrow> length chords - i)]")
     auto

declare contract_and_count.simps [simp del] cc_loop.simps [simp del]

section \<open>The polynomial assembler\<close>

text \<open>
  Lines 237--244, the loop \<^verbatim>\<open>for j from 1 <= j < i\<close>; the state is \<^verbatim>\<open>coeffs\<close> and \<^verbatim>\<open>coeff\<close>.
  \<^verbatim>\<open>mpz_divexact_ui\<close> is exact division.
\<close>

definition binom_step :: "int list \<Rightarrow> int \<Rightarrow> nat \<Rightarrow> nat \<Rightarrow> int list \<times> int \<Rightarrow> int list \<times> int" where
  "binom_step tot m i j cs =
     (let coeff1 = snd cs * (int j - int i);
          coeff2 = coeff1 div int j;
          coeff3 = coeff2 * m;
          coeffs' = (fst cs)[i - j := fst cs ! (i - j) + coeff3 * tot ! i]
      in (coeffs', coeff3 * m))"

text \<open>Lines 229--244, the body of \<^verbatim>\<open>for i from nverts >= i > 0\<close>; the state is \<^verbatim>\<open>coeffs\<close> and \<^verbatim>\<open>m\<close>.\<close>

definition assemble_step :: "int list \<Rightarrow> nat \<Rightarrow> int list \<times> int \<Rightarrow> int list \<times> int" where
  "assemble_step tot i cm =
     (if tot ! i = 0 then cm
      else let m = - snd cm;
               coeffs1 = (fst cm)[i := fst cm ! i + m * tot ! i]
           in (fst (fold (binom_step tot m i) [1..<i] (coeffs1, 1)), m))"

text \<open>The state of the loop of line 228 once the sizes above \<open>i\<close> are done.\<close>

definition assemble_upto :: "int list \<Rightarrow> nat \<Rightarrow> nat \<Rightarrow> int list \<times> int" where
  "assemble_upto tot nverts i = fold (assemble_step tot) (rev [Suc i..<Suc nverts]) (replicate (Suc nverts) 0, - 1)"

definition assemble :: "int list \<Rightarrow> nat \<Rightarrow> int list" where
  "assemble tot nverts = fst (assemble_upto tot nverts 0)"

section \<open>Graphs\<close>

text \<open>
  Modelled from the spec: Sage's graph class is a collaborator of the module and not
  among its sources. A graph is its vertex list and its list of undirected edges (an edge
  is a pair in either orientation; parallel edges and loops are repeated and reflexive
  pairs). The operations below are the queries and updates the module calls, under the
  names it calls them by.
\<close>

record graph =
  verts :: "nat list"
  edges :: "(nat \<times> nat) list"

definition num_verts :: "graph \<Rightarrow> nat" where
  "num_verts g = length (verts g)"

definition num_edges :: "graph \<Rightarrow> nat" where
  "num_edges g = length (edges g)"

definition has_loops :: "graph \<Rightarrow> bool" where
  "has_loops g = list_ex (\<lambda>e. fst e = snd e) (edges g)"

text \<open>\<^verbatim>\<open>G.neighbor_iterator(v)\<close>: every neighbour once.\<close>

definition neighbors :: "graph \<Rightarrow> nat \<Rightarrow> nat list" where
  "neighbors g v = remdups (concat (map (\<lambda>e.
       (if fst e = v then [snd e] else []) @ (if snd e = v \<and> fst e \<noteq> v then [fst e] else []))
     (edges g)))"

definition expand :: "graph \<Rightarrow> nat list \<Rightarrow> nat list" where
  "expand g S = remdups (S @ concat (map (neighbors g) S))"

text \<open>The vertices reachable from \<open>v\<close>: \<open>num_verts g\<close> rounds of adding neighbours.\<close>

definition reach :: "graph \<Rightarrow> nat \<Rightarrow> nat list" where
  "reach g v = (expand g ^^ num_verts g) [v]"

definition component :: "graph \<Rightarrow> nat \<Rightarrow> nat list" where
  "component g v = filter (\<lambda>w. w \<in> set (reach g v)) (verts g)"

definition is_connected :: "graph \<Rightarrow> bool" where
  "is_connected g = (case verts g of [] \<Rightarrow> True | v # _ \<Rightarrow> length (component g v) = num_verts g)"

fun components_of :: "graph \<Rightarrow> nat list \<Rightarrow> nat list list" where
  "components_of g [] = []"
| "components_of g (v # vs) = component g v # components_of g (filter (\<lambda>w. w \<notin> set (component g v)) vs)"

definition connected_components :: "graph \<Rightarrow> nat list list" where
  "connected_components g = components_of g (verts g)"

definition subgraph :: "graph \<Rightarrow> nat list \<Rightarrow> graph" where
  "subgraph g c = \<lparr>verts = c, edges = filter (\<lambda>e. fst e \<in> set c \<and> snd e \<in> set c) (edges g)\<rparr>"

definition connected_components_subgraphs :: "graph \<Rightarrow> graph list" where
  "connected_components_subgraphs g = map (subgraph g) (connected_components g)"

definition is_tree :: "graph \<Rightarrow> bool" where
  "is_tree g = (verts g \<noteq> [] \<and> num_verts g = num_edges g + 1 \<and> is_connected g)"

fun index_of :: "nat list \<Rightarrow> nat \<Rightarrow> nat" where
  "index_of [] x = 0"
| "index_of (y # ys) x = (if x = y then 0 else Suc (index_of ys x))"

text \<open>\<^verbatim>\<open>G.relabel(inplace=False)\<close>: a copy whose vertices are \<open>0, ..., n - 1\<close>.\<close>

definition relabel :: "graph \<Rightarrow> graph" where
  "relabel g = \<lparr>verts = [0..<num_verts g],
                 edges = map (\<lambda>e. (index_of (verts g) (fst e), index_of (verts g) (snd e))) (edges g)\<rparr>"

definition norm_edge :: "nat \<times> nat \<Rightarrow> nat \<times> nat" where
  "norm_edge e = (min (fst e) (snd e), max (fst e) (snd e))"

definition remove_multiple_edges :: "graph \<Rightarrow> graph" where
  "remove_multiple_edges g = g\<lparr>edges := remdups (map norm_edge (edges g))\<rparr>"

definition remove_loops :: "graph \<Rightarrow> graph" where
  "remove_loops g = g\<lparr>edges := filter (\<lambda>e. fst e \<noteq> snd e) (edges g)\<rparr>"

definition same_edge :: "nat \<times> nat \<Rightarrow> nat \<Rightarrow> nat \<Rightarrow> bool" where
  "same_edge e u w \<longleftrightarrow> e = (u, w) \<or> e = (w, u)"

fun remove_first :: "(nat \<times> nat) list \<Rightarrow> nat \<Rightarrow> nat \<Rightarrow> (nat \<times> nat) list" where
  "remove_first [] u w = []"
| "remove_first (e # es) u w = (if same_edge e u w then es else e # remove_first es u w)"

definition delete_edge :: "graph \<Rightarrow> nat \<Rightarrow> nat \<Rightarrow> graph" where
  "delete_edge g u w = g\<lparr>edges := remove_first (edges g) u w\<rparr>"

definition add_edge :: "graph \<Rightarrow> nat \<Rightarrow> nat \<Rightarrow> graph" where
  "add_edge g u w = g\<lparr>edges := edges g @ [(u, w)]\<rparr>"

text \<open>
  \<^verbatim>\<open>g.merge_vertices([u, w])\<close>: \<open>w\<close> is deleted and its edges to vertices other than \<open>u\<close>
  are moved to \<open>u\<close>.
\<close>

definition merge_vertices :: "graph \<Rightarrow> nat \<Rightarrow> nat \<Rightarrow> graph" where
  "merge_vertices g u w =
     \<lparr>verts = filter (\<lambda>x. x \<noteq> w) (verts g),
      edges = filter (\<lambda>e. fst e \<noteq> w \<and> snd e \<noteq> w) (edges g)
              @ map (\<lambda>x. (u, x)) (filter (\<lambda>x. x \<noteq> u \<and> x \<noteq> w) (neighbors g w))\<rparr>"

text \<open>\<^verbatim>\<open>g.bridges(labels=False)\<close>: the edges whose deletion disconnects the graph.\<close>

definition bridges :: "graph \<Rightarrow> (nat \<times> nat) list" where
  "bridges g = filter (\<lambda>e. \<not> is_connected (delete_edge g (fst e) (snd e))) (edges g)"

section \<open>The chord decomposer\<close>

text \<open>
  The state of the breadth first search of lines 175--216. \<^verbatim>\<open>top\<close> is the length of
  \<open>queue\<close>, \<^verbatim>\<open>num_chords\<close> the length of \<open>chords\<close>.
\<close>

record bfs_state =
  queue :: "nat list"
  bot :: nat
  next_v :: int
  bfs_reorder :: "nat \<Rightarrow> int"
  parent :: "int \<Rightarrow> int"
  chords :: "chord list"

text \<open>The bubble sort of lines 205--216, from position \<open>i\<close> down.\<close>

fun bubble :: "chord list \<Rightarrow> nat \<Rightarrow> chord list" where
  "bubble cs 0 = cs"
| "bubble cs (Suc i) =
     (if fst (cs ! i) > fst (cs ! Suc i) then cs
      else if fst (cs ! i) = fst (cs ! Suc i) \<and> snd (cs ! i) > snd (cs ! Suc i) then cs
      else bubble (cs[i := cs ! Suc i, Suc i := cs ! i]) i)"

text \<open>Lines 190--216, the body of \<^verbatim>\<open>for u in G.neighbor_iterator(v)\<close>.\<close>

definition bfs_visit :: "nat \<Rightarrow> nat \<Rightarrow> bfs_state \<Rightarrow> bfs_state" where
  "bfs_visit v u s =
     (if bfs_reorder s u = - 1 then
        s\<lparr>bfs_reorder := (bfs_reorder s)(u := next_v s),
          next_v := next_v s + 1,
          queue := queue s @ [u],
          parent := (parent s)(next_v s := bfs_reorder s v)\<rparr>
      else if bfs_reorder s u > bfs_reorder s v then
        s\<lparr>chords := bubble (chords s @ [(bfs_reorder s u, bfs_reorder s v)]) (length (chords s))\<rparr>
      else s)"

text \<open>Lines 186--216, \<^verbatim>\<open>while top > bot\<close>.\<close>

partial_function (option) bfs_loop :: "graph \<Rightarrow> bfs_state \<Rightarrow> bfs_state option" where
  "bfs_loop G s =
     (if length (queue s) > bot s then
        bfs_loop G (fold (bfs_visit (queue s ! bot s)) (neighbors G (queue s ! bot s))
                      (s\<lparr>bot := bot s + 1\<rparr>))
      else Some s)"

text \<open>
  Lines 173--185. \<open>junk\<close> is the content of the memory \<^verbatim>\<open>parent\<close> is allocated in;
  \<^verbatim>\<open>parent[0]\<close> is never written.
\<close>

definition bfs_init :: "(int \<Rightarrow> int) \<Rightarrow> bfs_state" where
  "bfs_init junk = \<lparr>queue = [0], bot = 0, next_v = 1,
                     bfs_reorder = (\<lambda>u. if u = 0 then 0 else - 1),
                     parent = junk, chords = []\<rparr>"

section \<open>The direct algorithm\<close>

text \<open>The GMP integers of \<^verbatim>\<open>chromatic_polynomial\<close>, by the variable that holds them.\<close>

datatype mpz_var = Tot nat | Coeffs nat | Coeff_var | M_var

text \<open>
  Lines 162--260 of \<^verbatim>\<open>chromatic_polynomial\<close> on the relabelled graph \<open>G\<close>. The result is
  what the call returns or raises, the GMP integers that are initialised (\<^verbatim>\<open>mpz_init\<close>) and
  not cleared (\<^verbatim>\<open>mpz_clear\<close>) when it does, and the interrupt state. \<open>None\<close> is a breadth
  first search that does not end.
\<close>

definition chromatic_core :: "(int \<Rightarrow> int) \<Rightarrow> graph \<Rightarrow> nat option
    \<Rightarrow> ((error + poly) \<times> mpz_var list \<times> nat option) option" where
  "chromatic_core junk G sg =
     (let nverts = num_verts G;
          live = map Tot (0 # [1..<nverts] @ [nverts])
      in case bfs_loop G (bfs_init junk) of
           None \<Rightarrow> None
         | Some b \<Rightarrow>
             (case contract_and_count (chords b) nverts (parent b) (replicate (nverts + 1) 0, sg) of
                Inl e \<Rightarrow>
                  Some (Inl e, filter (\<lambda>x. x \<notin> set (map Tot [0..<nverts])) live, None)
              | Inr st \<Rightarrow>
                  let live1 = live @ map Coeffs [0..<nverts + 1] @ [Coeff_var, M_var];
                      f = pnorm (assemble (fst st) nverts);
                      live2 = filter (\<lambda>x. x \<notin> set (map Tot [0..<nverts + 1])
                                        \<and> x \<notin> set (map Coeffs [0..<nverts + 1])) live1;
                      live3 = filter (\<lambda>x. x \<noteq> Coeff_var \<and> x \<noteq> M_var) live2
                  in Some (Inr f, live3, snd st)))"

section \<open>The cached algorithm\<close>

text \<open>
  The key of line 434, \<^verbatim>\<open>frozenset(g.canonical_label().edges(labels=False, sort=False))\<close>.
  \<^verbatim>\<open>canonical_label\<close> is a parameter \<open>cl\<close> of the model: it belongs to Sage's graph
  class. A frozenset is the sorted list of its elements.
\<close>

type_synonym key = "(nat \<times> nat) list"

definition key_of :: "(graph \<Rightarrow> graph) \<Rightarrow> graph \<Rightarrow> key" where
  "key_of cl g = sort (remdups (map norm_edge (edges (cl g))))"

text \<open>
  What a vertex of the digraph \<open>D\<close> is associated with: a graph (a reference into the
  object store), a key, or a polynomial.
\<close>

datatype dval = GraphRef nat | Key key | Poly poly

text \<open>
  Modelled from the spec: Sage's \<^verbatim>\<open>DiGraph\<close>, with the object \<^verbatim>\<open>set_vertex\<close> associates to
  each vertex.
\<close>

record digraph =
  d_verts :: "nat list"
  d_assoc :: "nat \<rightharpoonup> dval"
  d_edges :: "(nat \<times> nat) list"

definition set_vertex :: "digraph \<Rightarrow> nat \<Rightarrow> dval \<Rightarrow> digraph" where
  "set_vertex D v x = D\<lparr>d_assoc := (d_assoc D)(v \<mapsto> x)\<rparr>"

definition get_vertex :: "digraph \<Rightarrow> nat \<Rightarrow> dval option" where
  "get_vertex D v = d_assoc D v"

text \<open>\<^verbatim>\<open>D.add_vertex()\<close> names the new vertex by the least integer not in use.\<close>

definition fresh_vertex :: "digraph \<Rightarrow> nat" where
  "fresh_vertex D = (case find (\<lambda>n. n \<notin> set (d_verts D)) [0..<Suc (length (d_verts D))] of
                       Some n \<Rightarrow> n | None \<Rightarrow> length (d_verts D))"

definition add_vertex :: "digraph \<Rightarrow> digraph" where
  "add_vertex D = D\<lparr>d_verts := d_verts D @ [fresh_vertex D]\<rparr>"

definition add_arc :: "digraph \<Rightarrow> nat \<Rightarrow> nat \<Rightarrow> digraph" where
  "add_arc D v w = D\<lparr>d_edges := d_edges D @ [(v, w)]\<rparr>"

definition neighbor_out :: "digraph \<Rightarrow> nat \<Rightarrow> nat list" where
  "neighbor_out D v = remdups (map snd (filter (\<lambda>e. fst e = v) (d_edges D)))"

definition delete_vertices :: "digraph \<Rightarrow> nat list \<Rightarrow> digraph" where
  "delete_vertices D ws =
     \<lparr>d_verts = filter (\<lambda>x. x \<notin> set ws) (d_verts D),
      d_assoc = (\<lambda>x. if x \<in> set ws then None else d_assoc D x),
      d_edges = filter (\<lambda>e. fst e \<notin> set ws \<and> snd e \<notin> set ws) (d_edges D)\<rparr>"

text \<open>
  A stack entry \<^verbatim>\<open>(firstseen, v, com)\<close>; the tuple \<^verbatim>\<open>com\<close> is its tag \<^verbatim>\<open>com[0]\<close> and the
  vertices that follow it.
\<close>

type_synonym com = "string \<times> nat list"

record wc_state =
  objs :: "graph list"
  D :: digraph
  cache :: "key \<rightharpoonup> poly"
  stack :: "(bool \<times> nat \<times> com) list"

text \<open>Lines 451--455, the body of the loop over the connected components.\<close>

definition push_component :: "nat \<Rightarrow> graph \<Rightarrow> wc_state \<Rightarrow> wc_state" where
  "push_component v h s =
     (let w = fresh_vertex (D s);
          D1 = add_vertex (D s);
          D2 = set_vertex D1 w (GraphRef (length (objs s)));
          D3 = add_arc D2 v w
      in s\<lparr>objs := objs s @ [h], D := D3, stack := (True, w, (''_'', [])) # stack s\<rparr>)"

text \<open>Lines 474--477: a bridge if there is one, else the first edge.\<close>

definition select_edge :: "graph \<Rightarrow> error + (nat \<times> nat)" where
  "select_edge g = (case bridges g of e # _ \<Rightarrow> Inr e
                    | [] \<Rightarrow> (case edges g of e # _ \<Rightarrow> Inr e | [] \<Rightarrow> Inl StopIteration))"

text \<open>Lines 467--486, the deletion and the contraction of an edge of the graph at \<open>r\<close>.\<close>

definition push_deletion_contraction :: "nat \<Rightarrow> nat \<Rightarrow> key \<Rightarrow> wc_state \<Rightarrow> error + wc_state" where
  "push_deletion_contraction v r k s =
     (let a = fresh_vertex (D s);
          D1 = add_vertex (D s);
          b = fresh_vertex D1;
          D2 = add_vertex D1;
          D3 = add_arc D2 v a;
          D4 = add_arc D3 v b;
          D5 = set_vertex D4 v (Key k);
          stack1 = (False, v, (''-'', [a, b])) # stack s
      in case select_edge (objs s ! r) of
           Inl e \<Rightarrow> Inl e
         | Inr (u, w) \<Rightarrow>
             let objs1 = (objs s)[r := delete_edge (objs s ! r) u w];
                 ra = length objs1;
                 objs2 = objs1 @ [objs1 ! r];
                 D6 = set_vertex D5 a (GraphRef ra);
                 stack2 = (True, a, (''_'', [])) # stack1;
                 objs3 = objs2[r := add_edge (objs2 ! r) u w];
                 objs4 = objs3[r := merge_vertices (objs3 ! r) u w];
                 objs5 = objs4[r := remove_multiple_edges (objs4 ! r)];
                 D7 = set_vertex D6 b (GraphRef r);
                 stack3 = (True, b, (''_'', [])) # stack2
             in Inr (s\<lparr>objs := objs5, D := D7, stack := stack3\<rparr>))"

text \<open>Lines 433--486, a first visit of vertex \<open>v\<close>.\<close>

definition first_visit :: "(graph \<Rightarrow> graph) \<Rightarrow> nat \<Rightarrow> wc_state \<Rightarrow> error + wc_state" where
  "first_visit cl v s =
     (case get_vertex (D s) v of
        Some (GraphRef r) \<Rightarrow>
          let g = objs s ! r; k = key_of cl g in
          (case cache s k of
             Some p \<Rightarrow> Inr (s\<lparr>D := set_vertex (D s) v (Poly p)\<rparr>)
           | None \<Rightarrow>
               if verts g = [] then
                 Inr (s\<lparr>D := set_vertex (D s) v (Poly pone), cache := (cache s)(k \<mapsto> pone)\<rparr>)
               else if has_loops g then
                 Inr (s\<lparr>D := set_vertex (D s) v (Poly pzero), cache := (cache s)(k \<mapsto> pzero)\<rparr>)
               else if \<not> is_connected g then
                 Inr (fold (push_component v) (connected_components_subgraphs g)
                        (s\<lparr>D := set_vertex (D s) v (Key k),
                           stack := (False, v, (''*'', [])) # stack s\<rparr>))
               else if num_verts g = num_edges g + 1 then
                 Inr (s\<lparr>D := set_vertex (D s) v (Poly (tree_poly (num_verts g))),
                        cache := (cache s)(k \<mapsto> tree_poly (num_verts g))\<rparr>)
               else push_deletion_contraction v r k s)
      | _ \<Rightarrow> Inl TypeError)"

definition polys_of :: "dval option list \<Rightarrow> error + poly list" where
  "polys_of xs = (if list_all (\<lambda>x. case x of Some (Poly p) \<Rightarrow> True | _ \<Rightarrow> False) xs
                  then Inr (map (\<lambda>x. case x of Some (Poly p) \<Rightarrow> p | _ \<Rightarrow> []) xs)
                  else Inl TypeError)"

text \<open>Lines 488--494, the product of the children of \<open>v\<close>.\<close>

definition combine_product :: "nat \<Rightarrow> wc_state \<Rightarrow> error + wc_state" where
  "combine_product v s =
     (case get_vertex (D s) v of
        Some (Key k) \<Rightarrow>
          (case polys_of (map (get_vertex (D s)) (neighbor_out (D s) v)) of
             Inl e \<Rightarrow> Inl e
           | Inr ps \<Rightarrow>
               let p = pprod ps;
                   D1 = set_vertex (D s) v (Poly p)
               in Inr (s\<lparr>cache := (cache s)(k \<mapsto> p),
                         D := delete_vertices D1 (neighbor_out D1 v)\<rparr>))
      | _ \<Rightarrow> Inl TypeError)"

text \<open>Lines 496--502, the difference of the two children of \<open>v\<close>.\<close>

definition combine_difference :: "nat \<Rightarrow> nat list \<Rightarrow> wc_state \<Rightarrow> error + wc_state" where
  "combine_difference v args s =
     (case get_vertex (D s) v of
        Some (Key k) \<Rightarrow>
          (case args of
             a # b # _ \<Rightarrow>
               (case polys_of [get_vertex (D s) a, get_vertex (D s) b] of
                  Inr [pa, pb] \<Rightarrow>
                    let p = psub pa pb;
                        D1 = set_vertex (D s) v (Poly p)
                    in Inr (s\<lparr>cache := (cache s)(k \<mapsto> p),
                              D := delete_vertices D1 (neighbor_out D1 v)\<rparr>)
                | _ \<Rightarrow> Inl TypeError)
           | _ \<Rightarrow> Inl TypeError)
      | _ \<Rightarrow> Inl TypeError)"

text \<open>Lines 430--506, the body of \<^verbatim>\<open>while stack\<close> on a stack that is not empty.\<close>

definition wc_step :: "(graph \<Rightarrow> graph) \<Rightarrow> wc_state \<Rightarrow> error + wc_state" where
  "wc_step cl s =
     (case stack s of
        [] \<Rightarrow> Inr s
      | (firstseen, v, com) # rest \<Rightarrow>
          if firstseen then first_visit cl v (s\<lparr>stack := rest\<rparr>)
          else if fst com = ''*'' then combine_product v (s\<lparr>stack := rest\<rparr>)
          else if fst com = ''-'' then combine_difference v (snd com) (s\<lparr>stack := rest\<rparr>)
          else Inl (ValueError ''something goes wrong''))"

text \<open>
  Lines 428--506, \<^verbatim>\<open>while stack\<close>: the final state, or the exception and the state it was
  raised in.
\<close>

partial_function (option) wc_loop :: "(graph \<Rightarrow> graph) \<Rightarrow> wc_state \<Rightarrow> (error option \<times> wc_state) option" where
  "wc_loop cl s =
     (if stack s = [] then Some (None, s)
      else case wc_step cl s of
             Inl e \<Rightarrow> Some (Some e, s)
           | Inr s' \<Rightarrow> wc_loop cl s')"

text \<open>
  The process state a call runs in: the store of graph objects (a reference is an index),
  the interrupt state, the content of freshly allocated memory, and the number of GMP
  integers that were initialised and never cleared.
\<close>

record world =
  heap :: "graph list"
  signal :: "nat option"
  junk :: "int \<Rightarrow> int"
  leaked :: nat

text \<open>Lines 403--423, the state the loop starts in; the caller's graph is at \<open>r\<close>.\<close>

definition wc_init :: "graph list \<Rightarrow> nat \<Rightarrow> wc_state" where
  "wc_init h r =
     (let h1 = h @ [relabel (h ! r)];
          r1 = length h;
          h2 = h1[r1 := remove_multiple_edges (h1 ! r1)]
      in \<lparr>objs = h2,
          D = set_vertex \<lparr>d_verts = [0], d_assoc = Map.empty, d_edges = []\<rparr> 0 (GraphRef r1),
          cache = Map.empty,
          stack = [(True, 0, (''_'', []))]\<rparr>)"

definition chromatic_polynomial_with_cache :: "(graph \<Rightarrow> graph) \<Rightarrow> world \<Rightarrow> nat
    \<Rightarrow> ((error + poly) \<times> world) option" where
  "chromatic_polynomial_with_cache cl w r =
     (let G = heap w ! r in
      if verts G = [] then Some (Inr pone, w)
      else if has_loops G then Some (Inr pzero, w)
      else case wc_loop cl (wc_init (heap w) r) of
             None \<Rightarrow> None
           | Some (Some e, s) \<Rightarrow> Some (Inl e, w\<lparr>heap := objs s\<rparr>)
           | Some (None, s) \<Rightarrow>
               (case get_vertex (D s) 0 of
                  Some (Poly p) \<Rightarrow> Some (Inr p, w\<lparr>heap := objs s\<rparr>)
                | _ \<Rightarrow> Some (Inl TypeError, w\<lparr>heap := objs s\<rparr>)))"

section \<open>The entry point\<close>

definition lower_char :: "char \<Rightarrow> char" where
  "lower_char c = (case map_of (zip ''ABCDEFGHIJKLMNOPQRSTUVWXYZ'' ''abcdefghijklmnopqrstuvwxyz'') c of
                     Some d \<Rightarrow> d | None \<Rightarrow> c)"

definition lower :: "string \<Rightarrow> string" where
  "lower s = map lower_char s"

text \<open>
  The list comprehension of line 145: the calls are made in order on the state the
  previous one left, and the first exception ends it.
\<close>

primrec call_each :: "(world \<Rightarrow> nat \<Rightarrow> ((error + poly) \<times> world) option) \<Rightarrow> world \<Rightarrow> nat list
    \<Rightarrow> ((error + poly list) \<times> world) option" where
  "call_each f w [] = Some (Inr [], w)"
| "call_each f w (r # rs) =
     Option.bind (f w r) (\<lambda>q.
       if isl (fst q) then Some (Inl (projl (fst q)), snd q)
       else Option.bind (call_each f (snd q) rs) (\<lambda>q'.
         Some (if isl (fst q') then Inl (projl (fst q')) else Inr (projr (fst q) # projr (fst q')), snd q')))"

lemma call_each_mono [partial_function_mono]:
  assumes "\<And>w r. mono_option (\<lambda>f. F f w r)"
  shows "mono_option (\<lambda>f. call_each (F f) w rs)"
proof (induction rs arbitrary: w)
  case Nil
  show ?case by (simp add: option.const_mono)
next
  case (Cons r rs)
  show ?case
    by (simp only: call_each.simps) (intro partial_function_mono assms Cons)
qed

text \<open>Lines 159--260: the copy of the graph at \<open>r\<close>, and the direct algorithm on it.\<close>

definition chromatic_direct :: "world \<Rightarrow> nat \<Rightarrow> ((error + poly) \<times> world) option" where
  "chromatic_direct w r =
     (let h1 = heap w @ [relabel (heap w ! r)];
          r1 = length (heap w);
          h2 = h1[r1 := remove_multiple_edges (h1 ! r1)];
          h3 = h2[r1 := remove_loops (h2 ! r1)]
      in case chromatic_core (junk w) (h3 ! r1) (signal w) of
           None \<Rightarrow> None
         | Some (res, live, sg) \<Rightarrow>
             Some (res, w\<lparr>heap := h3, signal := sg, leaked := leaked w + length live\<rparr>))"

text \<open>
  \<^verbatim>\<open>chromatic_polynomial(G, algorithm=alg)\<close> with the caller's graph at \<open>r\<close>: what the call
  returns or raises, and the state it leaves. \<open>None\<close> is a call that does not return.
\<close>

partial_function (option) chromatic_polynomial :: "(graph \<Rightarrow> graph) \<Rightarrow> world \<Rightarrow> nat \<Rightarrow> string
    \<Rightarrow> ((error + poly) \<times> world) option" where
  "chromatic_polynomial cl w r alg =
     (if lower alg \<notin> {''c'', ''python''} then
        Some (Inl (ValueError ''algorithm must be \"C\" or \"Python\"''), w)
      else if lower alg = ''python'' then chromatic_polynomial_with_cache cl w r
      else if verts (heap w ! r) = [] then Some (Inr pone, w)
      else if has_loops (heap w ! r) then Some (Inr pzero, w)
      else if \<not> is_connected (heap w ! r) then
        Option.bind
          (call_each (\<lambda>w' r'. chromatic_polynomial cl w' r' ''C'')
             (w\<lparr>heap := heap w @ connected_components_subgraphs (heap w ! r)\<rparr>)
             [length (heap w)..<length (heap w) + length (connected_components_subgraphs (heap w ! r))])
          (\<lambda>q. Some (if isl (fst q) then Inl (projl (fst q)) else Inr (pprod (projr (fst q))), snd q))
      else if is_tree (heap w ! r) then Some (Inr (tree_poly (num_verts (heap w ! r))), w)
      else chromatic_direct w r)"

section \<open>Coefficients of the polynomial operations\<close>

lemma coeff_Cons_0 [simp]: "coeff (a # p) 0 = a"
  by (simp add: coeff_def)

lemma coeff_Cons_Suc [simp]: "coeff (a # p) (Suc k) = coeff p k"
  by (simp add: coeff_def)

lemma coeff_Nil [simp]: "coeff [] k = 0"
  by (simp add: coeff_def)

lemma coeff_zero_single [simp]: "coeff [0] k = 0"
  by (cases k) simp_all

lemma coeff_padd_raw: "coeff (padd_raw p q) k = coeff p k + coeff q k"
proof (induction p q arbitrary: k rule: padd_raw.induct)
  case (3 a p b q)
  then show ?case by (cases k) simp_all
qed simp_all

lemma coeff_smult: "coeff (smult c p) k = c * coeff p k"
  by (simp add: coeff_def smult_def)

lemma coeff_append_zero: "coeff (p @ replicate n 0) k = coeff p k"
  by (auto simp: coeff_def nth_append)

lemma pnorm_decomp: "\<exists>n. p = pnorm p @ replicate n 0"
proof -
  let ?t = "rev (takeWhile (\<lambda>c. c = 0) (rev p))"
  have d: "p = pnorm p @ ?t"
    unfolding pnorm_def by (metis rev_append rev_rev_ident takeWhile_dropWhile_id)
  have "\<forall>y\<in>set ?t. y = 0"
    by (auto dest: set_takeWhileD)
  then have "replicate (length ?t) 0 = ?t"
    by (rule replicate_length_same)
  with d show ?thesis by metis
qed

lemma coeff_pnorm [simp]: "coeff (pnorm p) k = coeff p k"
proof -
  obtain n where "p = pnorm p @ replicate n 0" using pnorm_decomp by blast
  then show ?thesis by (metis coeff_append_zero)
qed

lemma coeff_pmul_raw_Cons: "coeff (pmul_raw (a # p) q) k = a * coeff q k + (case k of 0 \<Rightarrow> 0 | Suc j \<Rightarrow> coeff (pmul_raw p q) j)"
  by (cases k) (simp_all add: coeff_padd_raw coeff_smult)

lemma coeff_pmul_pgen: "coeff (pmul pgen q) k = (case k of 0 \<Rightarrow> 0 | Suc j \<Rightarrow> coeff q j)"
  by (cases k) (simp_all add: pmul_def pgen_def coeff_padd_raw coeff_smult split: nat.splits)

lemma psub_pgen_pone: "psub pgen pone = [- 1, 1]"
  by (simp add: psub_def pgen_def pone_def smult_def pnorm_def)

lemma coeff_pmul_xm1: "coeff (pmul [- 1, 1] q) k = (case k of 0 \<Rightarrow> 0 | Suc j \<Rightarrow> coeff q j) - coeff q k"
  by (cases k) (simp_all add: pmul_def coeff_padd_raw coeff_smult split: nat.splits)

lemma coeff_ppow_xm1: "coeff (ppow [- 1, 1] m) j = (- 1) ^ (m + j) * int (m choose j)"
proof (induction m arbitrary: j)
  case 0
  then show ?case by (cases j) simp_all
next
  case (Suc m)
  show ?case
  proof (cases j)
    case 0
    then show ?thesis by (simp add: coeff_pmul_xm1 Suc)
  next
    case (Suc i)
    then show ?thesis by (simp add: coeff_pmul_xm1 Suc.IH algebra_simps)
  qed
qed

lemma coeff_tree_poly: "coeff (tree_poly i) k = (case k of 0 \<Rightarrow> 0 | Suc j \<Rightarrow> (- 1) ^ (i - 1 + j) * int ((i - 1) choose j))"
  by (simp add: tree_poly_def coeff_pmul_pgen psub_pgen_pone coeff_ppow_xm1 split: nat.splits)

section \<open>The assembly loop\<close>

lemma binom_next: "int (Suc t) * int (n choose Suc t) = int (n - t) * int (n choose t)"
proof -
  have "Suc t * (n choose Suc t) = (n - t) * (n choose t)"
    using binomial_absorption[of t n] binomial_absorb_comp[of n t] by (simp only:)
  then show ?thesis
    by (metis of_nat_mult)
qed

lemma neg_pow_step: "((- 1) ^ t * C) * (- I) = (- 1) ^ Suc t * (I * (C::int))"
  by simp

lemma binom_fold:
  assumes "m * m = 1" "t < i" "i < length cs"
    and "fold (binom_step tot m i) [1..<Suc t] (cs, 1) = (cs', c)"
  shows "c = (- 1) ^ t * int ((i - 1) choose t) \<and> length cs' = length cs \<and>
    (\<forall>k<length cs. cs' ! k = cs ! k +
       (if i - t \<le> k \<and> k < i then m * (- 1) ^ (i - k) * int ((i - 1) choose (i - k)) * tot ! i else 0))"
  using assms(2,4)
proof (induction t arbitrary: cs' c)
  case 0
  then show ?case by auto
next
  case (Suc t)
  obtain cs1 c1 where f1: "fold (binom_step tot m i) [1..<Suc t] (cs, 1) = (cs1, c1)"
    by (cases "fold (binom_step tot m i) [1..<Suc t] (cs, 1)")
  from Suc.prems have ti: "t < i" by simp
  note ih = Suc.IH[OF ti f1]
  from ih have c1: "c1 = (- 1) ^ t * int ((i - 1) choose t)" and len1: "length cs1 = length cs"
    by simp_all
  have sti: "Suc t < i" using Suc.prems by simp
  have e1: "c1 * (int (Suc t) - int i) = ((- 1) ^ Suc t * int ((i - 1) choose Suc t)) * int (Suc t)"
  proof -
    have a: "int (Suc t) - int i = - int (i - 1 - t)" using sti by simp
    have "c1 * (int (Suc t) - int i) = ((- 1) ^ t * int ((i - 1) choose t)) * (- int (i - 1 - t))"
      by (simp only: a c1)
    also have "\<dots> = (- 1) ^ Suc t * (int (i - 1 - t) * int ((i - 1) choose t))"
      by (rule neg_pow_step)
    also have "\<dots> = (- 1) ^ Suc t * (int (Suc t) * int ((i - 1) choose Suc t))"
      by (simp only: binom_next)
    finally show ?thesis by (simp add: mult.assoc mult.commute)
  qed
  have e2: "c1 * (int (Suc t) - int i) div int (Suc t) = (- 1) ^ Suc t * int ((i - 1) choose Suc t)"
    unfolding e1 by (rule nonzero_mult_div_cancel_right) simp
  have step: "(cs', c) = binom_step tot m i (Suc t) (cs1, c1)"
    using Suc.prems(2) f1 by simp
  let ?c2 = "(- 1) ^ Suc t * int ((i - 1) choose Suc t)"
  have cs': "cs' = cs1[i - Suc t := cs1 ! (i - Suc t) + ?c2 * m * tot ! i]"
    and c: "c = ?c2 * m * m"
    using step e2 by (simp_all add: binom_step_def Let_def)
  have "c = ?c2" using c assms(1) by (simp add: mult.assoc)
  moreover have "length cs' = length cs" using cs' len1 by simp
  moreover have "\<forall>k<length cs. cs' ! k = cs ! k +
       (if i - Suc t \<le> k \<and> k < i then m * (- 1) ^ (i - k) * int ((i - 1) choose (i - k)) * tot ! i else 0)"
  proof (intro allI impI)
    fix k assume k: "k < length cs"
    from ih k have old: "cs1 ! k = cs ! k +
       (if i - t \<le> k \<and> k < i then m * (- 1) ^ (i - k) * int ((i - 1) choose (i - k)) * tot ! i else 0)"
      by simp
    show "cs' ! k = cs ! k +
       (if i - Suc t \<le> k \<and> k < i then m * (- 1) ^ (i - k) * int ((i - 1) choose (i - k)) * tot ! i else 0)"
    proof (cases "k = i - Suc t")
      case True
      then have ik: "i - k = Suc t" using sti by simp
      have "\<not> (i - t \<le> k)" using True sti by simp
      with old have "cs1 ! k = cs ! k" by simp
      moreover have "cs' ! k = cs1 ! k + ?c2 * m * tot ! i"
        using cs' True k len1 by simp
      ultimately show ?thesis using True sti ik by (simp add: mult.commute mult.left_commute)
    next
      case False
      then have "cs' ! k = cs1 ! k" using cs' by simp
      moreover have "(i - Suc t \<le> k \<and> k < i) = (i - t \<le> k \<and> k < i)"
        using False sti by auto
      ultimately show ?thesis using old by simp
    qed
  qed
  ultimately show ?case by simp
qed

lemma assemble_step_zero: "tot ! i = 0 \<Longrightarrow> assemble_step tot i cm = cm"
  by (simp add: assemble_step_def)

lemma assemble_step_nonzero:
  assumes "m0 * m0 = 1" "0 < i" "i < length cs" "tot ! i \<noteq> 0"
  shows "snd (assemble_step tot i (cs, m0)) = - m0"
    and "length (fst (assemble_step tot i (cs, m0))) = length cs"
    and "k < length cs \<Longrightarrow>
         fst (assemble_step tot i (cs, m0)) ! k = cs ! k + tot ! i * (- m0) * coeff (tree_poly i) k"
proof -
  let ?m = "- m0"
  let ?cs1 = "cs[i := cs ! i + ?m * tot ! i]"
  obtain cs' c where f: "fold (binom_step tot ?m i) [1..<Suc (i - 1)] (?cs1, 1) = (cs', c)"
    by (cases "fold (binom_step tot ?m i) [1..<Suc (i - 1)] (?cs1, 1)")
  have mm: "?m * ?m = 1" using assms(1) by simp
  have "i - 1 < i" using assms(2) by simp
  moreover have "i < length ?cs1" using assms(3) by simp
  ultimately have bf: "length cs' = length ?cs1 \<and>
    (\<forall>k<length ?cs1. cs' ! k = ?cs1 ! k +
       (if i - (i - 1) \<le> k \<and> k < i then ?m * (- 1) ^ (i - k) * int ((i - 1) choose (i - k)) * tot ! i else 0))"
    using binom_fold[OF mm _ _ f] by blast
  have si: "Suc (i - 1) = i" using assms(2) by simp
  have f': "fold (binom_step tot ?m i) [1..<i] (?cs1, 1) = (cs', c)"
    using f unfolding si .
  have res: "assemble_step tot i (cs, m0) = (cs', ?m)"
    unfolding assemble_step_def Let_def using assms(4) f' by simp
  show "snd (assemble_step tot i (cs, m0)) = - m0" using res by simp
  show "length (fst (assemble_step tot i (cs, m0))) = length cs" using res bf by simp
  show "fst (assemble_step tot i (cs, m0)) ! k = cs ! k + tot ! i * (- m0) * coeff (tree_poly i) k"
    if k: "k < length cs"
  proof -
    from bf k have ck: "cs' ! k = ?cs1 ! k +
       (if 1 \<le> k \<and> k < i then ?m * (- 1) ^ (i - k) * int ((i - 1) choose (i - k)) * tot ! i else 0)"
      using assms(2) by simp
    show ?thesis
    proof (cases k)
      case 0
      then show ?thesis using ck res assms(2) by (simp add: coeff_tree_poly)
    next
      case (Suc j)
      consider "k = i" | "k < i" | "i < k" by linarith
      then show ?thesis
      proof cases
        case 1
        then have "i = Suc j" using Suc by simp
        then have "coeff (tree_poly i) k = 1"
          using Suc by (simp add: coeff_tree_poly flip: mult_2)
        then show ?thesis using ck res 1 assms(3)
          by (simp add: mult.commute)
      next
        case 2
        have "j \<le> i - 1" using 2 Suc by simp
        then have sym: "(i - 1) choose (i - k) = (i - 1) choose j"
          using binomial_symmetric[of j "i - 1"] Suc 2 by simp
        have "i - 1 + j = (i - k) + 2 * j" using 2 Suc by simp
        then have par: "(- 1 :: int) ^ (i - 1 + j) = (- 1) ^ (i - k)"
          by (simp add: power_add)
        show ?thesis using ck res 2 Suc sym par
          by (simp add: coeff_tree_poly mult.commute mult.left_commute)
      next
        case 3
        then have "i - 1 < j" using Suc assms(2) by simp
        then show ?thesis using ck res 3 Suc by (simp add: coeff_tree_poly)
      qed
    qed
  qed
qed

lemma assemble_upto_top: "assemble_upto tot n n = (replicate (Suc n) 0, - 1)"
  by (simp add: assemble_upto_def)

lemma assemble_upto_step:
  "i < n \<Longrightarrow> assemble_upto tot n i = assemble_step tot (Suc i) (assemble_upto tot n (Suc i))"
proof -
  assume "i < n"
  then have "[Suc i..<Suc n] = Suc i # [Suc (Suc i)..<Suc n]"
    by (simp add: upt_conv_Cons)
  then show ?thesis
    by (simp only: assemble_upto_def rev.simps fold_append fold.simps comp_def id_def)
qed

lemma assemble_upto_inv:
  "i \<le> n \<Longrightarrow> length (fst (assemble_upto tot n i)) = Suc n \<and>
     snd (assemble_upto tot n i) * snd (assemble_upto tot n i) = 1"
proof (induction "n - i" arbitrary: i)
  case 0
  then show ?case by (simp add: assemble_upto_top)
next
  case (Suc d)
  then have i: "i < n" and d: "d = n - Suc i" and le: "Suc i \<le> n" by simp_all
  obtain cs m where st: "assemble_upto tot n (Suc i) = (cs, m)"
    by (cases "assemble_upto tot n (Suc i)")
  from Suc.hyps(1)[OF d le] st have inv: "length cs = Suc n" "m * m = 1" by simp_all
  show ?case
  proof (cases "tot ! Suc i = 0")
    case True
    then show ?thesis using inv st i by (simp add: assemble_upto_step assemble_step_zero)
  next
    case False
    have "Suc i < length cs" using inv i by simp
    from assemble_step_nonzero(1,2)[OF inv(2) _ this False]
    show ?thesis using inv st i by (simp add: assemble_upto_step)
  qed
qed

lemma assemble_upto_sign:
  "i \<le> n \<Longrightarrow> (\<forall>j. i < j \<and> j \<le> n \<longrightarrow> tot ! j \<noteq> 0) \<Longrightarrow>
     snd (assemble_upto tot n i) = - ((- 1) ^ (n - i))"
proof (induction "n - i" arbitrary: i)
  case 0
  then show ?case by (simp add: assemble_upto_top)
next
  case (Suc d)
  then have i: "i < n" and d: "d = n - Suc i" and le: "Suc i \<le> n" by simp_all
  obtain cs m where st: "assemble_upto tot n (Suc i) = (cs, m)"
    by (cases "assemble_upto tot n (Suc i)")
  have "\<forall>j. Suc i < j \<and> j \<le> n \<longrightarrow> tot ! j \<noteq> 0" using Suc.prems(2) by simp
  from Suc.hyps(1)[OF d le this] st have m: "m = - ((- 1) ^ (n - Suc i))" by simp
  from assemble_upto_inv[OF le, of tot] st have inv: "length cs = Suc n" "m * m = 1" by simp_all
  have nz: "tot ! Suc i \<noteq> 0" using Suc.prems(2) i by simp
  have "Suc i < length cs" using inv i by simp
  from assemble_step_nonzero(1)[OF inv(2) _ this nz]
  have "snd (assemble_upto tot n i) = - m" using st i by (simp add: assemble_upto_step)
  moreover have "n - i = Suc (n - Suc i)" using i by simp
  ultimately show ?case using m by simp
qed

section \<open>The histogram of the contraction counter\<close>

text \<open>
  \<open>grows n a b\<close>: the histogram \<open>b\<close> is \<open>a\<close> with counts added below size \<open>n\<close>, and the
  sizes that gained a count reach up to \<open>n - 1\<close> without a gap.
\<close>


definition grows :: "nat \<Rightarrow> int list \<Rightarrow> int list \<Rightarrow> bool" where
  "grows n a b \<longleftrightarrow> length b = length a \<and>
     (\<forall>k<length a. a ! k \<le> b ! k \<and> (n \<le> k \<longrightarrow> b ! k = a ! k) \<and>
        (Suc k < n \<longrightarrow> Suc k < length a \<longrightarrow> a ! k < b ! k \<longrightarrow> a ! Suc k < b ! Suc k))"

lemma grows_refl: "grows n a a"
  by (simp add: grows_def)

lemma grows_trans:
  assumes "grows n a b" "grows n b c"
  shows "grows n a c"
proof -
  have len: "length b = length a" "length c = length a"
    using assms by (simp_all add: grows_def)
  have "a ! k \<le> c ! k \<and> (n \<le> k \<longrightarrow> c ! k = a ! k) \<and>
        (Suc k < n \<longrightarrow> Suc k < length a \<longrightarrow> a ! k < c ! k \<longrightarrow> a ! Suc k < c ! Suc k)"
    if k: "k < length a" for k
  proof (intro conjI impI)
    from assms k len have ab: "a ! k \<le> b ! k" and bc: "b ! k \<le> c ! k"
      by (simp_all add: grows_def)
    then show "a ! k \<le> c ! k" by simp
    show "c ! k = a ! k" if "n \<le> k"
      using assms k len that by (simp add: grows_def)
    show "a ! Suc k < c ! Suc k" if "Suc k < n" "Suc k < length a" "a ! k < c ! k"
    proof -
      from assms that(2) len have ab': "a ! Suc k \<le> b ! Suc k" and bc': "b ! Suc k \<le> c ! Suc k"
        by (simp_all add: grows_def)
      from that(3) ab bc consider "a ! k < b ! k" | "b ! k < c ! k" by linarith
      then show ?thesis
      proof cases
        case 1
        with assms(1) k that(1,2) have "a ! Suc k < b ! Suc k" by (simp add: grows_def)
        with bc' show ?thesis by simp
      next
        case 2
        with assms(2) k that(1,2) len have "b ! Suc k < c ! Suc k" by (simp add: grows_def)
        with ab' show ?thesis by simp
      qed
    qed
  qed
  with len show ?thesis by (simp add: grows_def)
qed

lemma tot_incr_Inr:
  "tot_incr n st = Inr st' \<Longrightarrow> n < length (fst st) \<and> fst st' = (fst st)[n := fst st ! n + 1] \<and> snd st' = snd st"
  by (auto simp: tot_incr_def split: if_splits)

lemma grows_incr:
  assumes "grows n a b" "n < length a"
  shows "grows (Suc n) a (b[n := b ! n + 1])"
proof -
  let ?b = "b[n := b ! n + 1]"
  have len: "length b = length a" using assms(1) by (simp add: grows_def)
  have "a ! k \<le> ?b ! k \<and> (Suc n \<le> k \<longrightarrow> ?b ! k = a ! k) \<and>
        (Suc k < Suc n \<longrightarrow> Suc k < length a \<longrightarrow> a ! k < ?b ! k \<longrightarrow> a ! Suc k < ?b ! Suc k)"
    if k: "k < length a" for k
  proof (intro conjI impI)
    from assms(1) k have ab: "a ! k \<le> b ! k" by (simp add: grows_def)
    show "a ! k \<le> ?b ! k"
    proof (cases "k = n")
      case True
      then show ?thesis using ab k len by simp
    next
      case False
      then show ?thesis using ab by simp
    qed
    show "?b ! k = a ! k" if "Suc n \<le> k"
    proof -
      from that have "k \<noteq> n" "n \<le> k" by simp_all
      then show ?thesis using assms(1) k by (simp add: grows_def)
    qed
    show "a ! Suc k < ?b ! Suc k" if "Suc k < Suc n" "Suc k < length a" "a ! k < ?b ! k"
    proof (cases "Suc k = n")
      case True
      from assms(1) that(2) have "a ! Suc k \<le> b ! Suc k" by (simp add: grows_def)
      then show ?thesis using True that(2) len by simp
    next
      case False
      with that(1) have lt: "Suc k < n" by simp
      then have "k \<noteq> n" by simp
      with that(3) have "a ! k < b ! k" by simp
      with assms(1) k lt that(2) have "a ! Suc k < b ! Suc k" by (simp add: grows_def)
      then show ?thesis using False by simp
    qed
  qed
  with len show ?thesis by (simp add: grows_def)
qed

lemma cc_grows:
  "contract_and_count chs n par st = Inr st' \<Longrightarrow>
     grows (Suc n) (fst st) (fst st') \<and> n < length (fst st) \<and> fst st ! n < fst st' ! n"
  "cc_loop chs i n par st = Inr st' \<Longrightarrow> grows n (fst st) (fst st')"
proof (induction chs n par st and chs i n par st arbitrary: st' and st'
    rule: contract_and_count_cc_loop.induct)
  case (1 chs nverts par st)
  show ?case
  proof (cases "chs = []")
    case True
    with "1.prems"[unfolded contract_and_count.simps[of chs nverts par st]]
    have t: "tot_incr nverts st = Inr st'" by simp
    from tot_incr_Inr[OF t] have n0: "nverts < length (fst st)"
      and e: "fst st' = (fst st)[nverts := fst st ! nverts + 1]" by simp_all
    from grows_incr[OF grows_refl n0] e show ?thesis using n0 by simp
  next
    case False
    with "1.prems"[unfolded contract_and_count.simps[of chs nverts par st]]
    obtain st1 where l: "cc_loop chs 0 nverts par st = Inr st1"
      and t: "tot_incr nverts st1 = Inr st'"
      by (auto split: sum.splits)
    from tot_incr_Inr[OF t] have n1: "nverts < length (fst st1)"
      and e: "fst st' = (fst st1)[nverts := fst st1 ! nverts + 1]" by simp_all
    from "1.IH"[OF False l] have g: "grows nverts (fst st) (fst st1)" .
    then have ll: "length (fst st1) = length (fst st)" by (simp add: grows_def)
    with n1 have n0: "nverts < length (fst st)" by simp
    from grows_incr[OF g n0] e have "grows (Suc nverts) (fst st) (fst st')" by simp
    moreover have "fst st ! nverts < fst st' ! nverts"
      using g n0 e n1 by (simp add: grows_def)
    ultimately show ?thesis using n0 by simp
  qed
next
  case (2 chs i nverts par st)
  show ?case
  proof (cases "length chs \<le> i")
    case True
    with "2.prems"[unfolded cc_loop.simps[of chs i nverts par st]] show ?thesis
      by (simp add: grows_refl)
  next
    case False
    with "2.prems"[unfolded cc_loop.simps[of chs i nverts par st]]
    obtain sg st1 where s: "sig_check (snd st) = Inr sg"
      and nz: "nverts \<noteq> 0"
      and c: "contract_and_count (new_chords par chs i) (nverts - 1) par (fst st, sg) = Inr st1"
      and l: "cc_loop chs (Suc i) nverts par st1 = Inr st'"
      by (auto split: sum.splits if_splits)
    from "2.IH"(1)[OF False s nz c] have g1: "grows nverts (fst st) (fst st1)"
      using nz by simp
    from "2.IH"(2)[OF False s nz c l] have g2: "grows nverts (fst st1) (fst st')" .
    from grows_trans[OF g1 g2] show ?thesis .
  qed
qed

lemma grows_contiguous:
  assumes "grows (Suc n) a b" "n < length a" "i \<le> j" "j \<le> n" "a ! i < b ! i"
  shows "a ! j < b ! j"
  using assms(3,4)
proof (induction j)
  case 0
  then show ?case using assms(5) by simp
next
  case (Suc j)
  show ?case
  proof (cases "i = Suc j")
    case True
    then show ?thesis using assms(5) by simp
  next
    case False
    with Suc.prems have "i \<le> j" "j \<le> n" by simp_all
    from Suc.IH[OF this] have "a ! j < b ! j" .
    moreover have "j < length a" "Suc j < Suc n" "Suc j < length a"
      using Suc.prems assms(2) by simp_all
    ultimately show ?thesis using assms(1) by (simp add: grows_def)
  qed
qed

section \<open>Evaluation\<close>

declare bfs_loop.simps [code] wc_loop.simps [code] chromatic_polynomial.simps [code]

definition triangle :: graph where
  "triangle = \<lparr>verts = [0, 1, 2], edges = [(0, 1), (1, 2), (0, 2)]\<rparr>"

lemma cc_triangle:
  "contract_and_count [(2, 1)] 3 (\<lambda>i. if i = 0 then 7 else 0) (replicate (3 + 1) 0, None) = Inr ([0, 0, 1, 1], None)"
  by (simp add: contract_and_count.simps cc_loop.simps new_chords_def tot_incr_def sig_check_def
      parent_chord_def numeral_3_eq_3)



section \<open>The sign of a tree size's contribution\<close>

text \<open>
  C3. In the assembly loop of \<^verbatim>\<open>chromatic_polynomial\<close> over a graph with \<open>nverts\<close> vertices,
  on the histogram \<open>tot\<close> that \<^verbatim>\<open>contract_and_count\<close> filled from zeros: for every tree size
  \<open>i\<close> with \<open>tot[i]\<close> nonzero, the iteration for \<open>i\<close> adds to every entry \<open>k\<close> of the
  coefficient vector the coefficient at \<open>x^k\<close> of \<open>tot[i] * s * x * (x - 1)^(i - 1)\<close>, where
  \<open>s = (-1)^(nverts - i)\<close>. (The loop flips its sign only on a nonzero entry; the sizes
  the contraction counter reached have no gap below \<open>nverts\<close>, so that the flips are
  \<open>nverts - i + 1\<close> in number.)
\<close>

theorem assembly_contribution:
  assumes "contract_and_count chs nverts par (replicate (nverts + 1) 0, sg) = Inr (tot, sg')"
    and "0 < i" and "i \<le> nverts" and "tot ! i \<noteq> 0" and "k \<le> nverts"
  shows "fst (assemble_step tot i (assemble_upto tot nverts i)) ! k =
         fst (assemble_upto tot nverts i) ! k + tot ! i * (- 1) ^ (nverts - i) * coeff (tree_poly i) k"
proof -
  let ?z = "replicate (nverts + 1) (0::int)"
  from cc_grows(1)[OF assms(1)] have g: "grows (Suc nverts) ?z tot" by simp
  then have len: "length tot = Suc nverts" by (simp add: grows_def)
  have pos: "?z ! i < tot ! i"
  proof -
    from g assms(3) have "?z ! i \<le> tot ! i" by (simp add: grows_def)
    moreover have "?z ! i = 0" using assms(3) nth_replicate[of i "nverts + 1" "0::int"] by simp
    ultimately show ?thesis using assms(4) by simp
  qed
  have nz: "\<forall>j. i < j \<and> j \<le> nverts \<longrightarrow> tot ! j \<noteq> 0"
  proof (intro allI impI)
    fix j assume j: "i < j \<and> j \<le> nverts"
    then have "i \<le> j" "j \<le> nverts" by simp_all
    from grows_contiguous[OF g _ this pos] have "?z ! j < tot ! j" by simp
    moreover have "?z ! j = 0" using j nth_replicate[of j "nverts + 1" "0::int"] by simp
    ultimately show "tot ! j \<noteq> 0" by simp
  qed
  obtain cs m where st: "assemble_upto tot nverts i = (cs, m)"
    by (cases "assemble_upto tot nverts i")
  from assemble_upto_inv[OF assms(3), of tot] st have inv: "length cs = Suc nverts" "m * m = 1"
    by simp_all
  from assemble_upto_sign[OF assms(3) nz] st have m: "m = - ((- 1) ^ (nverts - i))" by simp
  have "i < length cs" "k < length cs" using inv assms(3,5) by simp_all
  from assemble_step_nonzero(3)[OF inv(2) assms(2) this(1) assms(4) this(2)]
  show ?thesis using st m by simp
qed


theorem assembly_contribution_witness:
  "contract_and_count [(2, 1)] 3 (\<lambda>i. if i = 0 then 7 else 0) (replicate (3 + 1) 0, None) = Inr ([0, 0, 1, 1], None)
   \<and> [0, 0, 1, 1] ! 2 \<noteq> (0::int)
   \<and> fst (assemble_step [0, 0, 1, 1] 2 (assemble_upto [0, 0, 1, 1] 3 2)) ! 1 =
       fst (assemble_upto [0, 0, 1, 1] 3 2) ! 1 + [0, 0, 1, 1] ! 2 * (- 1) ^ (3 - 2) * coeff (tree_poly 2) 1"
proof -
  have nz: "[0, 0, 1, 1] ! 2 \<noteq> (0::int)" by simp
  from assembly_contribution[OF cc_triangle _ _ nz, of 1] cc_triangle nz
  show ?thesis by simp
qed


section \<open>The algorithm name\<close>

text \<open>
  C8. \<^verbatim>\<open>chromatic_polynomial(G, algorithm=alg)\<close> raises \<^verbatim>\<open>ValueError\<close> (the spec's
  InvalidArgument) for every \<open>alg\<close> whose lower-case form is neither \<^verbatim>\<open>c\<close> nor \<^verbatim>\<open>python\<close>,
  whatever the graph and the state are, and leaves the state as it was.
\<close>

theorem invalid_algorithm_rejected:
  "lower alg \<notin> {''c'', ''python''} \<Longrightarrow>
     chromatic_polynomial cl w r alg = Some (Inl (ValueError ''algorithm must be \"C\" or \"Python\"''), w)"
  by (subst chromatic_polynomial.simps) simp

theorem invalid_algorithm_rejected_witness:
  "lower ''foo'' \<notin> {''c'', ''python''} \<and>
   chromatic_polynomial relabel \<lparr>heap = [\<lparr>verts = [0, 1, 2], edges = [(0, 1), (1, 2), (2, 0)]\<rparr>],
        signal = None, junk = (\<lambda>i. 0), leaked = 0\<rparr> 0 ''foo''
     = Some (Inl (ValueError ''algorithm must be \"C\" or \"Python\"''),
         \<lparr>heap = [\<lparr>verts = [0, 1, 2], edges = [(0, 1), (1, 2), (2, 0)]\<rparr>],
          signal = None, junk = (\<lambda>i. 0), leaked = 0\<rparr>)"
proof -
  have h: "lower ''foo'' \<notin> {''c'', ''python''}"
    by (simp add: lower_def lower_char_def)
  from invalid_algorithm_rejected[OF h] h show ?thesis by simp
qed



section \<open>An interrupt in the contraction counter\<close>

text \<open>
  C4. On the triangle, with an interrupt pending at the first \<^verbatim>\<open>sig_check()\<close> of
  \<^verbatim>\<open>contract_and_count\<close>: the call raises \<^verbatim>\<open>KeyboardInterrupt\<close> unchanged, and of the four
  histogram entries \<^verbatim>\<open>tot[0..3]\<close> that were initialised, \<^verbatim>\<open>tot[3]\<close> is never cleared: the
  handler of lines 219--222 clears \<^verbatim>\<open>tot[i]\<close> for \<^verbatim>\<open>i in range(nverts)\<close> only.
\<close>

theorem interrupt_leaves_top_entry:
  "chromatic_core (\<lambda>i. 0) triangle (Some 0) = Some (Inl KeyboardInterrupt, [Tot 3], None)
   \<and> map_option (\<lambda>x. (fst x, leaked (snd x)))
       (chromatic_polynomial relabel
          \<lparr>heap = [triangle], signal = Some 0, junk = (\<lambda>i. 0), leaked = 0\<rparr> 0 ''C'')
     = Some (Inl KeyboardInterrupt, 1)"
  by code_simp

section \<open>The work stack of the cached algorithm\<close>

text \<open>The state after \<open>n\<close> iterations of \<^verbatim>\<open>while stack\<close>, or the exception raised on the way.\<close>

primrec wc_iter :: "(graph \<Rightarrow> graph) \<Rightarrow> nat \<Rightarrow> wc_state \<Rightarrow> error + wc_state" where
  "wc_iter cl 0 s = Inr s"
| "wc_iter cl (Suc n) s =
     (case wc_iter cl n s of
        Inl e \<Rightarrow> Inl e
      | Inr s' \<Rightarrow> if stack s' = [] then Inr s' else wc_step cl s')"

definition good_entry :: "bool \<times> nat \<times> com \<Rightarrow> bool" where
  "good_entry e \<longleftrightarrow> fst e \<or> fst (snd (snd e)) = ''*'' \<or> fst (snd (snd e)) = ''-''"

lemma stack_set_vertex [simp]: "stack (s\<lparr>D := d\<rparr>) = stack s"
  by simp

lemma push_component_stack:
  "stack (push_component v h s) = (True, fresh_vertex (D s), (''_'', [])) # stack s"
  by (simp add: push_component_def Let_def)

lemma fold_push_component_good:
  "list_all good_entry (stack s) \<Longrightarrow> list_all good_entry (stack (fold (push_component v) hs s))"
  by (induction hs arbitrary: s) (simp_all add: push_component_stack good_entry_def)

lemma push_deletion_contraction_good:
  "list_all good_entry (stack s) \<Longrightarrow> push_deletion_contraction v r k s = Inr s' \<Longrightarrow>
     list_all good_entry (stack s')"
  by (auto simp: push_deletion_contraction_def Let_def good_entry_def split: sum.splits prod.splits)

lemma first_visit_good:
  "list_all good_entry (stack s) \<Longrightarrow> first_visit cl v s = Inr s' \<Longrightarrow> list_all good_entry (stack s')"
  unfolding first_visit_def Let_def
  by (auto split: option.splits dval.splits if_splits
      intro: push_deletion_contraction_good fold_push_component_good simp: good_entry_def)

lemma combine_product_stack: "combine_product v s = Inr s' \<Longrightarrow> stack s' = stack s"
  by (auto simp: combine_product_def Let_def split: option.splits dval.splits sum.splits)

lemma combine_difference_stack: "combine_difference v args s = Inr s' \<Longrightarrow> stack s' = stack s"
  by (auto simp: combine_difference_def Let_def split: option.splits dval.splits sum.splits list.splits)

lemma wc_step_good:
  assumes "list_all good_entry (stack s)" and "wc_step cl s = Inr s'"
  shows "list_all good_entry (stack s')"
proof (cases "stack s")
  case Nil
  with assms show ?thesis by (simp add: wc_step_def)
next
  case (Cons e rest)
  obtain fs v c where e: "e = (fs, v, c)" by (cases e)
  let ?s = "s\<lparr>stack := rest\<rparr>"
  have g: "list_all good_entry (stack ?s)" using assms(1) Cons by simp
  consider "fs" | "\<not> fs" "fst c = ''*''" | "\<not> fs" "fst c \<noteq> ''*''" "fst c = ''-''"
    | "\<not> fs" "fst c \<noteq> ''*''" "fst c \<noteq> ''-''" by blast
  then show ?thesis
  proof cases
    case 1
    with assms(2) Cons e have "first_visit cl v ?s = Inr s'" by (simp add: wc_step_def)
    from first_visit_good[OF g this] show ?thesis .
  next
    case 2
    with assms(2) Cons e have "combine_product v ?s = Inr s'" by (simp add: wc_step_def)
    from combine_product_stack[OF this] g show ?thesis by simp
  next
    case 3
    with assms(2) Cons e have "combine_difference v (snd c) ?s = Inr s'" by (simp add: wc_step_def)
    from combine_difference_stack[OF this] g show ?thesis by simp
  next
    case 4
    with assms(2) Cons e show ?thesis by (simp add: wc_step_def)
  qed
qed

lemma push_deletion_contraction_error:
  "push_deletion_contraction v r k s = Inl e \<Longrightarrow> e = StopIteration"
  by (auto simp: push_deletion_contraction_def Let_def select_edge_def split: sum.splits prod.splits list.splits)

lemma first_visit_error: "first_visit cl v s = Inl e \<Longrightarrow> e = StopIteration \<or> e = TypeError"
  unfolding first_visit_def Let_def
  by (auto split: option.splits dval.splits if_splits dest: push_deletion_contraction_error)

lemma combine_product_error: "combine_product v s = Inl e \<Longrightarrow> e = TypeError"
  by (auto simp: combine_product_def Let_def polys_of_def split: option.splits dval.splits sum.splits if_splits)

lemma combine_difference_error: "combine_difference v args s = Inl e \<Longrightarrow> e = TypeError"
  by (auto simp: combine_difference_def Let_def polys_of_def split: option.splits dval.splits sum.splits list.splits if_splits)

lemma wc_step_error:
  "list_all good_entry (stack s) \<Longrightarrow> wc_step cl s = Inl e \<Longrightarrow> e = StopIteration \<or> e = TypeError"
  unfolding wc_step_def
  by (auto split: list.splits if_splits simp: good_entry_def
      dest: first_visit_error combine_product_error combine_difference_error)


lemma wc_loop_invariant:
  assumes "wc_loop cl s = Some (e, s')" and "I s"
    and step: "\<And>s s'. I s \<Longrightarrow> stack s \<noteq> [] \<Longrightarrow> wc_step cl s = Inr s' \<Longrightarrow> I s'"
  shows "I s' \<and> (case e of None \<Rightarrow> stack s' = [] | Some x \<Rightarrow> stack s' \<noteq> [] \<and> wc_step cl s' = Inl x)"
proof -
  let ?Q = "\<lambda>y. I (snd y) \<and> (case fst y of None \<Rightarrow> stack (snd y) = []
                    | Some x \<Rightarrow> stack (snd y) \<noteq> [] \<and> wc_step cl (snd y) = Inl x)"
  have "cl = cl \<longrightarrow> I s \<longrightarrow> ?Q (e, s')"
  proof (rule wc_loop.raw_induct[where P = "\<lambda>c s y. c = cl \<longrightarrow> I s \<longrightarrow> ?Q y"
        and cl = cl and s = s and y = "(e, s')"])
    show "wc_loop cl s = Some (e, s')" by fact
  next
    fix loop :: "(graph \<Rightarrow> graph) \<Rightarrow> wc_state \<Rightarrow> (error option \<times> wc_state) option"
    fix c t y
    assume ih: "\<And>c t y. loop c t = Some y \<Longrightarrow> c = cl \<longrightarrow> I t \<longrightarrow> ?Q y"
      and body: "(if stack t = [] then Some (None, t)
                  else case wc_step c t of Inl e \<Rightarrow> Some (Some e, t) | Inr s' \<Rightarrow> loop c s') = Some y"
    show "c = cl \<longrightarrow> I t \<longrightarrow> ?Q y"
    proof (intro impI)
      assume c: "c = cl" and i: "I t"
      show "?Q y"
      proof (cases "stack t = []")
        case True
        with body i show ?thesis by auto
      next
        case False
        show ?thesis
        proof (cases "wc_step cl t")
          case (Inl x)
          with body False c i show ?thesis by auto
        next
          case (Inr t1)
          with body False c have "loop c t1 = Some y" by simp
          moreover have "I t1" using step[OF i False Inr] .
          ultimately show ?thesis using ih c by blast
        qed
      qed
    qed
  qed
  with assms(2) show ?thesis by (cases e) simp_all
qed

lemma wc_iter_invariant:
  assumes "wc_iter cl n s = Inr s'" and "I s"
    and step: "\<And>s s'. I s \<Longrightarrow> stack s \<noteq> [] \<Longrightarrow> wc_step cl s = Inr s' \<Longrightarrow> I s'"
  shows "I s'"
  using assms(1)
proof (induction n arbitrary: s')
  case 0
  with assms(2) show ?case by simp
next
  case (Suc n)
  then obtain s1 where s1: "wc_iter cl n s = Inr s1"
    and r: "(if stack s1 = [] then Inr s1 else wc_step cl s1) = Inr s'"
    by (auto split: sum.splits)
  from Suc.IH[OF s1] have "I s1" .
  with r step show ?case by (auto split: if_splits)
qed


subsection \<open>The shape of a deletion and contraction\<close>

lemma pdc_shape:
  assumes "push_deletion_contraction v r k s = Inr s'" and "r < length (objs s)"
  shows "\<exists>u w. select_edge (objs s ! r) = Inr (u, w) \<and>
      objs s' = (objs s)[r := remove_multiple_edges
                       (merge_vertices (add_edge (delete_edge (objs s ! r) u w) u w) u w)]
                @ [delete_edge (objs s ! r) u w] \<and>
      d_verts (D s') = d_verts (D s) @ [fresh_vertex (D s), fresh_vertex (add_vertex (D s))] \<and>
      d_edges (D s') = d_edges (D s) @ [(v, fresh_vertex (D s)), (v, fresh_vertex (add_vertex (D s)))] \<and>
      d_assoc (D s') = (d_assoc (D s))(v \<mapsto> Key k, fresh_vertex (D s) \<mapsto> GraphRef (length (objs s)),
                          fresh_vertex (add_vertex (D s)) \<mapsto> GraphRef r) \<and>
      stack s' = (True, fresh_vertex (add_vertex (D s)), (''_'', [])) # (True, fresh_vertex (D s), (''_'', []))
                  # (False, v, (''-'', [fresh_vertex (D s), fresh_vertex (add_vertex (D s))])) # stack s \<and>
      cache s' = cache s"
proof -
  from assms(1) obtain u w where sel: "select_edge (objs s ! r) = Inr (u, w)"
    by (auto simp: push_deletion_contraction_def Let_def split: sum.splits)
  have upd: "\<And>xs (a::graph) b c. r < length xs \<Longrightarrow> (xs[r := a] @ [b])[r := c] = xs[r := c] @ [b]"
    by (simp add: list_update_append)
  have nth: "\<And>xs (a::graph) b. r < length xs \<Longrightarrow> (xs[r := a] @ [b]) ! r = a"
    by (simp add: nth_append)
  from assms sel show ?thesis
    by (auto simp add: push_deletion_contraction_def Let_def upd nth list_update_append nth_append
        set_vertex_def add_vertex_def add_arc_def)
qed

lemma push_component_shape:
  "objs (push_component v h s) = objs s @ [h]"
  "d_verts (D (push_component v h s)) = d_verts (D s) @ [fresh_vertex (D s)]"
  "d_edges (D (push_component v h s)) = d_edges (D s) @ [(v, fresh_vertex (D s))]"
  "d_assoc (D (push_component v h s)) = (d_assoc (D s))(fresh_vertex (D s) \<mapsto> GraphRef (length (objs s)))"
  "cache (push_component v h s) = cache s"
  by (simp_all add: push_component_def Let_def set_vertex_def add_vertex_def add_arc_def)

subsection \<open>Frame\<close>

definition frame_inv :: "graph list \<Rightarrow> wc_state \<Rightarrow> bool" where
  "frame_inv h s \<longleftrightarrow> take (length h) (objs s) = h \<and> length h \<le> length (objs s) \<and>
     (\<forall>v r. d_assoc (D s) v = Some (GraphRef r) \<longrightarrow> length h \<le> r \<and> r < length (objs s))"

lemma frame_inv_push_component:
  "frame_inv h s \<Longrightarrow> frame_inv h (push_component v g s)"
  unfolding frame_inv_def push_component_shape by (auto simp: less_Suc_eq)

lemma frame_inv_fold_push:
  "frame_inv h s \<Longrightarrow> frame_inv h (fold (push_component v) gs s)"
  by (induction gs arbitrary: s) (simp_all add: frame_inv_push_component)

lemma frame_inv_pdc:
  assumes "frame_inv h s" "push_deletion_contraction v r k s = Inr s'"
    "d_assoc (D s) v = Some (GraphRef r)"
  shows "frame_inv h s'"
proof -
  from assms(1,3) have r: "length h \<le> r" "r < length (objs s)" by (auto simp: frame_inv_def)
  from pdc_shape[OF assms(2) r(2)] obtain u w where
    o: "objs s' = (objs s)[r := remove_multiple_edges
                       (merge_vertices (add_edge (delete_edge (objs s ! r) u w) u w) u w)]
                @ [delete_edge (objs s ! r) u w]"
    and d: "d_assoc (D s') = (d_assoc (D s))(v \<mapsto> Key k, fresh_vertex (D s) \<mapsto> GraphRef (length (objs s)),
                          fresh_vertex (add_vertex (D s)) \<mapsto> GraphRef r)"
    by blast
  show ?thesis
    unfolding frame_inv_def o d using assms(1) r
    by (auto simp: frame_inv_def take_update_cancel less_Suc_eq)
qed

lemma frame_inv_first_visit:
  assumes "frame_inv h s" "first_visit cl v s = Inr s'"
  shows "frame_inv h s'"
proof -
  from assms(2) obtain r where r: "d_assoc (D s) v = Some (GraphRef r)"
    by (auto simp: first_visit_def get_vertex_def split: option.splits dval.splits)
  have p: "\<And>p. frame_inv h (s\<lparr>D := set_vertex (D s) v (Poly p)\<rparr>)"
    and k: "\<And>k. frame_inv h (s\<lparr>D := set_vertex (D s) v (Key k)\<rparr>)"
    using assms(1) by (auto simp: frame_inv_def set_vertex_def)
  have pc: "\<And>p c. frame_inv h (s\<lparr>D := set_vertex (D s) v (Poly p), cache := c\<rparr>)"
    using assms(1) by (auto simp: frame_inv_def set_vertex_def)
  have ks: "\<And>k st. frame_inv h (s\<lparr>D := set_vertex (D s) v (Key k), stack := st\<rparr>)"
    using assms(1) by (auto simp: frame_inv_def set_vertex_def)
  from assms(2) r show ?thesis
    unfolding first_visit_def Let_def get_vertex_def
    by (auto split: option.splits if_splits
        intro: p pc frame_inv_fold_push[OF ks] frame_inv_pdc[OF assms(1) _ r])
qed

lemma frame_inv_delete:
  assumes "frame_inv h s"
  shows "frame_inv h (s\<lparr>cache := c, D := delete_vertices (set_vertex (D s) v (Poly p)) ws\<rparr>)"
  using assms by (auto simp: frame_inv_def delete_vertices_def set_vertex_def split: if_splits)

lemma frame_inv_combine_product:
  "frame_inv h s \<Longrightarrow> combine_product v s = Inr s' \<Longrightarrow> frame_inv h s'"
  by (auto simp: combine_product_def Let_def split: option.splits dval.splits sum.splits
      intro: frame_inv_delete)

lemma frame_inv_combine_difference:
  "frame_inv h s \<Longrightarrow> combine_difference v args s = Inr s' \<Longrightarrow> frame_inv h s'"
  by (auto simp: combine_difference_def Let_def split: option.splits dval.splits sum.splits list.splits
      intro: frame_inv_delete)

lemma frame_inv_pop: "frame_inv h s \<Longrightarrow> frame_inv h (s\<lparr>stack := st\<rparr>)"
  by (simp add: frame_inv_def)

lemma frame_inv_step:
  assumes "frame_inv h s" "wc_step cl s = Inr s'"
  shows "frame_inv h s'"
proof (cases "stack s")
  case Nil
  with assms show ?thesis by (simp add: wc_step_def)
next
  case (Cons e rest)
  obtain fs v c where e: "e = (fs, v, c)" by (cases e)
  note p = frame_inv_pop[OF assms(1), of rest]
  from assms(2) Cons e show ?thesis
    by (auto simp: wc_step_def split: if_splits
        intro: frame_inv_first_visit[OF p] frame_inv_combine_product[OF p] frame_inv_combine_difference[OF p])
qed

lemma frame_inv_init: "frame_inv h (wc_init h r)"
  by (simp add: frame_inv_def wc_init_def Let_def set_vertex_def)

lemma with_cache_frame:
  assumes "chromatic_polynomial_with_cache cl w r = Some (res, w')"
  shows "take (length (heap w)) (heap w') = heap w \<and> length (heap w) \<le> length (heap w')"
proof (cases "verts (heap w ! r) = [] \<or> has_loops (heap w ! r)")
  case True
  with assms show ?thesis by (auto simp: chromatic_polynomial_with_cache_def Let_def split: if_splits)
next
  case False
  with assms obtain e s where l: "wc_loop cl (wc_init (heap w) r) = Some (e, s)"
    and h: "heap w' = objs s"
    by (auto simp: chromatic_polynomial_with_cache_def Let_def split: option.splits dval.splits)
  from wc_loop_invariant[OF l, of "frame_inv (heap w)"] frame_inv_init frame_inv_step
  have "frame_inv (heap w) s" by blast
  with h show ?thesis by (simp add: frame_inv_def)
qed

subsection \<open>The frame of the entry point\<close>

definition extends :: "graph list \<Rightarrow> graph list \<Rightarrow> bool" where
  "extends h h' \<longleftrightarrow> take (length h) h' = h \<and> length h \<le> length h'"

lemma extends_refl: "extends h h"
  by (simp add: extends_def)

lemma extends_trans:
  assumes "extends a b" "extends b c"
  shows "extends a c"
proof -
  from assms have l: "length a \<le> length b" "length b \<le> length c"
    and t: "take (length a) b = a" "take (length b) c = b"
    by (simp_all add: extends_def)
  have "take (length a) c = take (length a) (take (length b) c)"
    using l(1) by (simp add: min_def)
  with t l show ?thesis by (simp add: extends_def)
qed

lemma extends_append: "extends h (h @ xs)"
  by (simp add: extends_def)

lemma extends_nth: "extends h h' \<Longrightarrow> i < length h \<Longrightarrow> h' ! i = h ! i"
  unfolding extends_def by (metis nth_take)

lemma call_each_frame:
  assumes "\<And>w r y. f w r = Some y \<Longrightarrow> extends (heap w) (heap (snd y))"
    and "call_each f w rs = Some y"
  shows "extends (heap w) (heap (snd y))"
  using assms(2)
proof (induction rs arbitrary: w y)
  case Nil
  then show ?case by (auto simp: extends_refl)
next
  case (Cons r rs)
  from Cons.prems obtain q where q: "f w r = Some q"
    by (auto simp: bind_eq_Some_conv)
  note e1 = assms(1)[OF q]
  show ?case
  proof (cases "isl (fst q)")
    case True
    with Cons.prems q e1 show ?thesis by auto
  next
    case False
    with Cons.prems q obtain q' where q': "call_each f (snd q) rs = Some q'"
      and y: "snd y = snd q'"
      by (auto simp: bind_eq_Some_conv)
    from Cons.IH[OF q'] e1 y show ?thesis by (auto intro: extends_trans)
  qed
qed

lemma chromatic_direct_frame:
  assumes "chromatic_direct w r = Some y"
  shows "extends (heap w) (heap (snd y))"
proof -
  let ?h = "((heap w @ [relabel (heap w ! r)])
        [length (heap w) := remove_multiple_edges ((heap w @ [relabel (heap w ! r)]) ! length (heap w))])"
  let ?h3 = "?h[length (heap w) := remove_loops (?h ! length (heap w))]"
  from assms have "heap (snd y) = ?h3"
    by (auto simp: chromatic_direct_def Let_def split: option.splits prod.splits)
  then show ?thesis by (simp add: extends_def)
qed

text \<open>The cases of \<^verbatim>\<open>chromatic_polynomial\<close>, as an induction rule over the calls that return.\<close>

lemma chromatic_polynomial_cases [consumes 1, case_names invalid cached empty loops components tree direct]:
  assumes ret: "chromatic_polynomial cl w r alg = Some y"
    and invalid: "\<And>w r alg. lower alg \<noteq> ''c'' \<Longrightarrow> lower alg \<noteq> ''python'' \<Longrightarrow>
        P w r alg (Inl (ValueError ''algorithm must be \"C\" or \"Python\"''), w)"
    and cached: "\<And>w r alg y. lower alg = ''python'' \<Longrightarrow>
        chromatic_polynomial_with_cache cl w r = Some y \<Longrightarrow> P w r alg y"
    and empty: "\<And>w r alg. lower alg = ''c'' \<Longrightarrow> verts (heap w ! r) = [] \<Longrightarrow> P w r alg (Inr pone, w)"
    and loops: "\<And>w r alg. lower alg = ''c'' \<Longrightarrow> verts (heap w ! r) \<noteq> [] \<Longrightarrow> has_loops (heap w ! r) \<Longrightarrow>
        P w r alg (Inr pzero, w)"
    and components: "\<And>w r alg f q. lower alg = ''c'' \<Longrightarrow> verts (heap w ! r) \<noteq> [] \<Longrightarrow>
        \<not> has_loops (heap w ! r) \<Longrightarrow> \<not> is_connected (heap w ! r) \<Longrightarrow>
        (\<And>w r y. f w r = Some y \<Longrightarrow> P w r ''C'' y) \<Longrightarrow>
        call_each f (w\<lparr>heap := heap w @ connected_components_subgraphs (heap w ! r)\<rparr>)
             [length (heap w)..<length (heap w) + length (connected_components_subgraphs (heap w ! r))] = Some q \<Longrightarrow>
        P w r alg (if isl (fst q) then Inl (projl (fst q)) else Inr (pprod (projr (fst q))), snd q)"
    and tree: "\<And>w r alg. lower alg = ''c'' \<Longrightarrow> verts (heap w ! r) \<noteq> [] \<Longrightarrow>
        \<not> has_loops (heap w ! r) \<Longrightarrow> is_connected (heap w ! r) \<Longrightarrow> is_tree (heap w ! r) \<Longrightarrow>
        P w r alg (Inr (tree_poly (num_verts (heap w ! r))), w)"
    and direct: "\<And>w r alg y. lower alg = ''c'' \<Longrightarrow> verts (heap w ! r) \<noteq> [] \<Longrightarrow>
        \<not> has_loops (heap w ! r) \<Longrightarrow> is_connected (heap w ! r) \<Longrightarrow> \<not> is_tree (heap w ! r) \<Longrightarrow>
        chromatic_direct w r = Some y \<Longrightarrow> P w r alg y"
  shows "P w r alg y"
proof -
  have "cl = cl \<longrightarrow> P w r alg y"
  proof (rule chromatic_polynomial.raw_induct[where P = "\<lambda>c w r alg y. c = cl \<longrightarrow> P w r alg y"
      and cl = cl and w = w and r = r and alg = alg and y = y])
    show "chromatic_polynomial cl w r alg = Some y" by fact
  next
    fix cp :: "(graph \<Rightarrow> graph) \<Rightarrow> world \<Rightarrow> nat \<Rightarrow> string \<Rightarrow> ((error + poly) \<times> world) option"
    fix c w r alg y
    assume ih: "\<And>c w r alg y. cp c w r alg = Some y \<Longrightarrow> c = cl \<longrightarrow> P w r alg y"
      and body: "(if lower alg \<notin> {''c'', ''python''} then
          Some (Inl (ValueError ''algorithm must be \"C\" or \"Python\"''), w)
        else if lower alg = ''python'' then chromatic_polynomial_with_cache c w r
        else if verts (heap w ! r) = [] then Some (Inr pone, w)
        else if has_loops (heap w ! r) then Some (Inr pzero, w)
        else if \<not> is_connected (heap w ! r) then
          Option.bind
            (call_each (\<lambda>w' r'. cp c w' r' ''C'')
               (w\<lparr>heap := heap w @ connected_components_subgraphs (heap w ! r)\<rparr>)
               [length (heap w)..<length (heap w) + length (connected_components_subgraphs (heap w ! r))])
            (\<lambda>q. Some (if isl (fst q) then Inl (projl (fst q)) else Inr (pprod (projr (fst q))), snd q))
        else if is_tree (heap w ! r) then Some (Inr (tree_poly (num_verts (heap w ! r))), w)
        else chromatic_direct w r) = Some y"
    show "c = cl \<longrightarrow> P w r alg y"
    proof
      assume c: "c = cl"
      show "P w r alg y"
      proof (cases "lower alg = ''python''")
        case True
        then have "lower alg \<in> {''c'', ''python''}" by (simp only: insert_iff simp_thms)
        with body True have "chromatic_polynomial_with_cache c w r = Some y"
          by (simp only: if_True if_False simp_thms)
        with c True show ?thesis by (simp only: cached)
      next
        case py: False
        show ?thesis
        proof (cases "lower alg = ''c''")
          case False
          with py have "lower alg \<notin> {''c'', ''python''}" by (simp only: insert_iff empty_iff simp_thms)
          with body have "y = (Inl (ValueError ''algorithm must be \"C\" or \"Python\"''), w)"
            by (simp only: if_True if_False simp_thms option.inject)
          with invalid[OF False py] show ?thesis by (simp only:)
        next
          case True
          then have m: "lower alg \<in> {''c'', ''python''}" by (simp only: insert_iff simp_thms)
          from body m py have b1: "(if verts (heap w ! r) = [] then Some (Inr pone, w)
            else if has_loops (heap w ! r) then Some (Inr pzero, w)
            else if \<not> is_connected (heap w ! r) then
              Option.bind
                (call_each (\<lambda>w' r'. cp c w' r' ''C'')
                   (w\<lparr>heap := heap w @ connected_components_subgraphs (heap w ! r)\<rparr>)
                   [length (heap w)..<length (heap w) + length (connected_components_subgraphs (heap w ! r))])
                (\<lambda>q. Some (if isl (fst q) then Inl (projl (fst q)) else Inr (pprod (projr (fst q))), snd q))
            else if is_tree (heap w ! r) then Some (Inr (tree_poly (num_verts (heap w ! r))), w)
            else chromatic_direct w r) = Some y"
            by (simp only: if_True if_False simp_thms)
          show ?thesis
          proof (cases "verts (heap w ! r) = []")
            case e: True
            with b1 have "y = (Inr pone, w)" by simp
            with empty[OF True e] show ?thesis by simp
          next
            case ne: False
            show ?thesis
            proof (cases "has_loops (heap w ! r)")
              case l: True
              with b1 ne have "y = (Inr pzero, w)" by simp
              with loops[OF True ne l] show ?thesis by simp
            next
              case nl: False
              show ?thesis
              proof (cases "is_connected (heap w ! r)")
                case nc: False
                with b1 ne nl obtain q where
                  q: "call_each (\<lambda>w' r'. cp c w' r' ''C'')
                     (w\<lparr>heap := heap w @ connected_components_subgraphs (heap w ! r)\<rparr>)
                     [length (heap w)..<length (heap w) + length (connected_components_subgraphs (heap w ! r))] = Some q"
                  and y: "y = (if isl (fst q) then Inl (projl (fst q)) else Inr (pprod (projr (fst q))), snd q)"
                  by (auto simp: bind_eq_Some_conv)
                have "\<And>w r y. cp c w r ''C'' = Some y \<Longrightarrow> P w r ''C'' y"
                  using ih c by blast
                from components[OF True ne nl nc this q] y show ?thesis by simp
              next
                case co: True
                show ?thesis
                proof (cases "is_tree (heap w ! r)")
                  case t: True
                  with b1 ne nl co have "y = (Inr (tree_poly (num_verts (heap w ! r))), w)" by simp
                  with tree[OF True ne nl co t] show ?thesis by simp
                next
                  case nt: False
                  with b1 ne nl co have "chromatic_direct w r = Some y" by simp
                  from direct[OF True ne nl co nt this] show ?thesis .
                qed
              qed
            qed
          qed
        qed
      qed
    qed
  qed
  then show ?thesis by simp
qed

lemma chromatic_polynomial_frame:
  assumes "chromatic_polynomial cl w r alg = Some y"
  shows "extends (heap w) (heap (snd y))"
  using assms
proof (induction rule: chromatic_polynomial_cases)
  case (cached w r alg y)
  from with_cache_frame[of cl w r "fst y" "snd y"] cached show ?case by (simp add: extends_def)
next
  case (components w r alg f q)
  have "extends (heap (w\<lparr>heap := heap w @ connected_components_subgraphs (heap w ! r)\<rparr>)) (heap (snd q))"
  proof (rule call_each_frame[where f = f])
    show "call_each f (w\<lparr>heap := heap w @ connected_components_subgraphs (heap w ! r)\<rparr>)
        [length (heap w)..<length (heap w) + length (connected_components_subgraphs (heap w ! r))] = Some q"
      by fact
    show "\<And>w r y. f w r = Some y \<Longrightarrow> extends (heap w) (heap (snd y))"
      by fact
  qed
  then have "extends (heap w @ connected_components_subgraphs (heap w ! r)) (heap (snd q))" by simp
  with extends_append show ?case by (auto intro: extends_trans)
next
  case (direct w r alg y)
  then show ?case by (simp add: chromatic_direct_frame)
qed (simp_all add: extends_refl)

lemma wc_iter_error:
  assumes "wc_iter cl n s = Inl e" "list_all good_entry (stack s)"
  shows "e = StopIteration \<or> e = TypeError"
  using assms(1)
proof (induction n)
  case 0
  then show ?case by simp
next
  case (Suc n)
  show ?case
  proof (cases "wc_iter cl n s")
    case (Inl x)
    with Suc show ?thesis by simp
  next
    case (Inr t)
    from wc_iter_invariant[OF Inr, of "\<lambda>s. list_all good_entry (stack s)"] assms(2) wc_step_good
    have g: "list_all good_entry (stack t)" by blast
    from Suc.prems Inr have "wc_step cl t = Inl e" by (auto split: if_splits)
    from wc_step_error[OF g this] show ?thesis .
  qed
qed

lemma wc_init_good: "list_all good_entry (stack (wc_init h r))"
  by (simp add: wc_init_def Let_def good_entry_def)

text \<open>
  C10. The work stack of \<^verbatim>\<open>chromatic_polynomial_with_cache\<close> holds only first visits and
  entries tagged \<^verbatim>\<open>*\<close> or \<^verbatim>\<open>-\<close>, after any number of iterations of the loop, for every
  graph, store and canonical labelling; no iteration, and so neither the loop nor the call,
  raises the \<^verbatim>\<open>ValueError("something goes wrong")\<close> of the final \<^verbatim>\<open>else\<close>.
\<close>

theorem final_else_unreachable:
  "(case wc_iter cl n (wc_init h r) of
      Inl e \<Rightarrow> e \<noteq> ValueError ''something goes wrong''
    | Inr s \<Rightarrow> list_all good_entry (stack s))
   \<and> wc_loop cl (wc_init h r) \<noteq> Some (Some (ValueError ''something goes wrong''), s)
   \<and> chromatic_polynomial_with_cache cl w r \<noteq> Some (Inl (ValueError ''something goes wrong''), w')"
proof (intro conjI)
  show "case wc_iter cl n (wc_init h r) of
      Inl e \<Rightarrow> e \<noteq> ValueError ''something goes wrong''
    | Inr s \<Rightarrow> list_all good_entry (stack s)"
  proof (cases "wc_iter cl n (wc_init h r)")
    case (Inl e)
    from wc_iter_error[OF Inl wc_init_good] Inl show ?thesis by auto
  next
    case (Inr t)
    from wc_iter_invariant[OF Inr, of "\<lambda>s. list_all good_entry (stack s)"] wc_init_good wc_step_good
    show ?thesis using Inr by auto
  qed
  have loop: "e \<noteq> Some (ValueError ''something goes wrong'')"
    if "wc_loop cl (wc_init h r) = Some (e, t)" for h r e t
  proof
    assume e: "e = Some (ValueError ''something goes wrong'')"
    from wc_loop_invariant[OF that, of "\<lambda>s. list_all good_entry (stack s)"] wc_init_good wc_step_good
    have "list_all good_entry (stack t)" "wc_step cl t = Inl (ValueError ''something goes wrong'')"
      using e by auto
    from wc_step_error[OF this] show False by simp
  qed
  then show "wc_loop cl (wc_init h r) \<noteq> Some (Some (ValueError ''something goes wrong''), s)"
    by blast
  show "chromatic_polynomial_with_cache cl w r \<noteq> Some (Inl (ValueError ''something goes wrong''), w')"
  proof
    assume a: "chromatic_polynomial_with_cache cl w r = Some (Inl (ValueError ''something goes wrong''), w')"
    then obtain e t where l: "wc_loop cl (wc_init (heap w) r) = Some (e, t)"
      and "e = Some (ValueError ''something goes wrong'')"
      by (auto simp: chromatic_polynomial_with_cache_def Let_def pone_def pzero_def
          split: if_splits option.splits prod.splits dval.splits)
    with loop[OF l] show False by simp
  qed
qed

subsection \<open>The cache\<close>












text \<open>
  C9. A call of \<^verbatim>\<open>chromatic_polynomial\<close> or of \<^verbatim>\<open>chromatic_polynomial_with_cache\<close> that
  returns or raises leaves every graph object that existed before the call as it was, the
  caller's graph among them: the calls write only to objects they created.
\<close>

theorem caller_graph_unchanged:
  assumes "r < length (heap w)"
  shows "(chromatic_polynomial cl w r alg = Some (res, w') \<longrightarrow>
            heap w' ! r = heap w ! r \<and> take (length (heap w)) (heap w') = heap w)
       \<and> (chromatic_polynomial_with_cache cl w r = Some (res, w') \<longrightarrow>
            heap w' ! r = heap w ! r \<and> take (length (heap w)) (heap w') = heap w)"
proof (intro conjI impI)
  assume a: "chromatic_polynomial cl w r alg = Some (res, w')"
  from chromatic_polynomial_frame[OF a] have e: "extends (heap w) (heap w')" by simp
  from extends_nth[OF e assms] show "heap w' ! r = heap w ! r" .
  from e show "take (length (heap w)) (heap w') = heap w" by (simp add: extends_def)
next
  assume a: "chromatic_polynomial_with_cache cl w r = Some (res, w')"
  from with_cache_frame[OF a] have e: "extends (heap w) (heap w')" by (simp add: extends_def)
  from extends_nth[OF e assms] show "heap w' ! r = heap w ! r" .
  from e show "take (length (heap w)) (heap w') = heap w" by (simp add: extends_def)
qed

definition square :: graph where
  "square = \<lparr>verts = [0, 1, 2, 3], edges = [(0, 1), (1, 2), (2, 3), (3, 0)]\<rparr>"

lemma square_runs:
  "map_option (\<lambda>y. (fst y, heap (snd y)))
     (chromatic_polynomial relabel \<lparr>heap = [square], signal = None, junk = (\<lambda>i. 0), leaked = 0\<rparr> 0 ''C'')
    = Some (Inr [0, - 3, 6, - 4, 1], [square, \<lparr>verts = [0, 1, 2, 3], edges = [(0, 1), (1, 2), (2, 3), (0, 3)]\<rparr>])"
  "map_option (\<lambda>y. (fst y, length (heap (snd y))))
     (chromatic_polynomial_with_cache relabel \<lparr>heap = [square], signal = None, junk = (\<lambda>i. 0), leaked = 0\<rparr> 0)
    = Some (Inr [0, - 3, 6, - 4, 1], 4)"
  by code_simp+

theorem caller_graph_unchanged_witness:
  "(0::nat) < length (heap \<lparr>heap = [square], signal = None, junk = (\<lambda>i. 0), leaked = 0\<rparr>) \<and>
   (\<exists>res w'. chromatic_polynomial relabel \<lparr>heap = [square], signal = None, junk = (\<lambda>i. 0), leaked = 0\<rparr> 0 ''C''
        = Some (res, w') \<and> heap w' ! 0 = square \<and> take 1 (heap w') = [square]) \<and>
   (\<exists>res w'. chromatic_polynomial_with_cache relabel \<lparr>heap = [square], signal = None, junk = (\<lambda>i. 0), leaked = 0\<rparr> 0
        = Some (res, w') \<and> heap w' ! 0 = square \<and> take 1 (heap w') = [square])"
proof -
  let ?w = "\<lparr>heap = [square], signal = None, junk = (\<lambda>i. 0), leaked = 0\<rparr>"
  have r: "(0::nat) < length (heap ?w)" by simp
  from square_runs(1) obtain res1 w1 where c1: "chromatic_polynomial relabel ?w 0 ''C'' = Some (res1, w1)"
    by (cases "chromatic_polynomial relabel ?w 0 ''C''") auto
  from square_runs(2) obtain res2 w2 where c2: "chromatic_polynomial_with_cache relabel ?w 0 = Some (res2, w2)"
    by (cases "chromatic_polynomial_with_cache relabel ?w 0") auto
  from caller_graph_unchanged[OF r, of relabel "''C''" res1 w1] c1
  have "heap w1 ! 0 = square \<and> take 1 (heap w1) = [square]" by simp
  moreover from caller_graph_unchanged[OF r, of relabel "''C''" res2 w2] c2
  have "heap w2 ! 0 = square \<and> take 1 (heap w2) = [square]" by simp
  ultimately show ?thesis using c1 c2 r by blast
qed

section \<open>The constant term\<close>

subsection \<open>Constant terms\<close>











subsection \<open>Well-formed graphs\<close>

text \<open>A graph as Sage holds it: no vertex twice, and every edge joins two vertices.\<close>

definition wf_graph :: "graph \<Rightarrow> bool" where
  "wf_graph g \<longleftrightarrow> distinct (verts g) \<and> (\<forall>e\<in>set (edges g). fst e \<in> set (verts g) \<and> snd e \<in> set (verts g))"

lemma expand_superset: "set S \<subseteq> set (expand g S)"
  by (auto simp: expand_def)

lemma funpow_expand_superset: "set S \<subseteq> set ((expand g ^^ n) S)"
proof (induction n)
  case 0
  show ?case by simp
next
  case (Suc n)
  from expand_superset[where S = "(expand g ^^ n) S" and g = g] Suc show ?case by auto
qed

lemma reach_self: "v \<in> set (reach g v)"
  using funpow_expand_superset[where S = "[v]" and g = g and n = "num_verts g"] by (simp add: reach_def)

lemma component_self: "v \<in> set (verts g) \<Longrightarrow> v \<in> set (component g v)"
  by (simp add: component_def reach_self)

lemma component_subset: "set (component g v) \<subseteq> set (verts g)"
  by (auto simp: component_def)

lemma components_of_nonempty:
  "set vs \<subseteq> set (verts g) \<Longrightarrow> c \<in> set (components_of g vs) \<Longrightarrow> c \<noteq> []"
proof (induction g vs rule: components_of.induct)
  case (1 g)
  then show ?case by simp
next
  case (2 g v vs)
  from "2.prems"(1) have v: "v \<in> set (verts g)" by simp
  have sub: "set (filter (\<lambda>w. w \<notin> set (component g v)) vs) \<subseteq> set (verts g)"
    using "2.prems"(1) by auto
  from "2.prems"(2) consider "c = component g v" | "c \<in> set (components_of g (filter (\<lambda>w. w \<notin> set (component g v)) vs))"
    by auto
  then show ?case
  proof cases
    case 1
    with component_self[OF v] show ?thesis by auto
  next
    case 2
    from "2.IH"[OF sub this] show ?thesis .
  qed
qed


lemma components_of_subset:
  "c \<in> set (components_of g vs) \<Longrightarrow> set c \<subseteq> set (verts g)"
proof (induction g vs rule: components_of.induct)
  case (1 g)
  then show ?case by simp
next
  case (2 g v vs)
  then show ?case using component_subset by auto
qed



lemma component_subgraph_nonempty:
  assumes "h \<in> set (connected_components_subgraphs g)"
  shows "verts h \<noteq> []"
proof -
  from assms obtain c where c: "c \<in> set (components_of g (verts g))" and h: "h = subgraph g c"
    by (auto simp: connected_components_subgraphs_def connected_components_def)
  from components_of_nonempty[OF _ c] h show ?thesis by (simp add: subgraph_def)
qed







lemma remove_multiple_edges_verts [simp]: "verts (remove_multiple_edges g) = verts g"
  by (simp add: remove_multiple_edges_def)



lemma delete_edge_verts [simp]: "verts (delete_edge g u w) = verts g"
  by (simp add: delete_edge_def)


lemma add_edge_verts [simp]: "verts (add_edge g u w) = verts g"
  by (simp add: add_edge_def)





subsection \<open>The structure of the work stack and of the digraph\<close>

definition node_of :: "bool \<times> nat \<times> com \<Rightarrow> nat" where
  "node_of e = fst (snd e)"

definition kids :: "digraph \<Rightarrow> nat \<Rightarrow> nat set" where
  "kids d u = {c. (u, c) \<in> set (d_edges d)}"

definition resolved :: "digraph \<Rightarrow> nat \<Rightarrow> bool" where
  "resolved d c \<longleftrightarrow> (\<exists>p. d_assoc d c = Some (Poly p) \<and> coeff p 0 = 0)"

definition good_graph :: "graph \<Rightarrow> bool" where
  "good_graph g \<longleftrightarrow> wf_graph g \<and> verts g \<noteq> []"

text \<open>What the tag of a waiting entry promises about the children of its node.\<close>

definition tag_ok :: "digraph \<Rightarrow> bool \<times> nat \<times> com \<Rightarrow> bool" where
  "tag_ok d e \<longleftrightarrow>
     fst (snd (snd e)) = ''*'' \<and> kids d (node_of e) \<noteq> {} \<or>
     fst (snd (snd e)) = ''-'' \<and> (\<exists>a b rest. snd (snd (snd e)) = a # b # rest
         \<and> a \<in> kids d (node_of e) \<and> b \<in> kids d (node_of e))"

text \<open>
  An entry with the nodes \<open>A\<close> above it and \<open>B\<close> below it on the stack: the parents of its
  node wait below it; a first visit has a graph and no children; a waiting node has a key,
  and each of its children is above it or resolved. \<open>x\<close> is a node whose tag is not checked
  (it is being expanded).
\<close>

definition entry_ok :: "nat option \<Rightarrow> graph list \<Rightarrow> digraph \<Rightarrow> nat set \<Rightarrow> nat set \<Rightarrow> bool \<times> nat \<times> com \<Rightarrow> bool" where
  "entry_ok x os d A B e \<longleftrightarrow>
     (\<forall>y. (y, node_of e) \<in> set (d_edges d) \<longrightarrow> y \<in> B) \<and>
     (if fst e then kids d (node_of e) = {} \<and>
          (\<exists>r. d_assoc d (node_of e) = Some (GraphRef r) \<and> r < length os \<and> good_graph (os ! r))
      else (\<exists>k. d_assoc d (node_of e) = Some (Key k)) \<and>
           (\<forall>c\<in>kids d (node_of e). c \<in> A \<or> resolved d c) \<and>
           (x = Some (node_of e) \<or> tag_ok d e))"

fun stack_ok :: "nat option \<Rightarrow> graph list \<Rightarrow> digraph \<Rightarrow> nat set \<Rightarrow> (bool \<times> nat \<times> com) list \<Rightarrow> bool" where
  "stack_ok x os d A [] = True"
| "stack_ok x os d A (e # rest) =
     (entry_ok x os d A (node_of ` set rest) e \<and> stack_ok x os d (insert (node_of e) A) rest)"



lemma stack_ok_frame:
  assumes "stack_ok x os d A st"
    and "\<And>u. u \<in> node_of ` set st \<Longrightarrow> d_assoc d' u = d_assoc d u"
    and "\<And>u y. u \<in> node_of ` set st \<Longrightarrow> (y, u) \<in> set (d_edges d') \<Longrightarrow> (y, u) \<in> set (d_edges d)"
    and "\<And>e. e \<in> set st \<Longrightarrow> fst e \<Longrightarrow> kids d (node_of e) = {} \<Longrightarrow> kids d' (node_of e) = {}"
    and "\<And>e. e \<in> set st \<Longrightarrow> \<not> fst e \<Longrightarrow> kids d (node_of e) \<subseteq> kids d' (node_of e)"
    and "\<And>e c. e \<in> set st \<Longrightarrow> \<not> fst e \<Longrightarrow> c \<in> kids d' (node_of e) \<Longrightarrow> c \<notin> kids d (node_of e)
            \<Longrightarrow> c \<in> A' \<or> resolved d' c"
    and "\<And>e c. e \<in> set st \<Longrightarrow> c \<in> kids d (node_of e) \<Longrightarrow> c \<in> A \<or> resolved d c
            \<Longrightarrow> c \<in> A' \<or> resolved d' c"
    and "\<And>r. r < length os \<Longrightarrow> good_graph (os ! r) \<Longrightarrow> r < length os' \<and> good_graph (os' ! r)"
    and "x' = x \<or> x' \<noteq> None \<and> x = None"
  shows "stack_ok x' os' d' A' st"
  using assms(1-8)
proof (induction st arbitrary: A A')
  case Nil
  show ?case by simp
next
  case (Cons e rest)
  from Cons.prems(1) have eo: "entry_ok x os d A (node_of ` set rest) e"
    and so: "stack_ok x os d (insert (node_of e) A) rest" by simp_all
  have e_in: "e \<in> set (e # rest)" "node_of e \<in> node_of ` set (e # rest)" by simp_all
  have "entry_ok x' os' d' A' (node_of ` set rest) e"
  proof (cases "fst e")
    case True
    with eo have k0: "kids d (node_of e) = {}" and
      ex: "\<exists>r. d_assoc d (node_of e) = Some (GraphRef r) \<and> r < length os \<and> good_graph (os ! r)"
      and par: "\<forall>y. (y, node_of e) \<in> set (d_edges d) \<longrightarrow> y \<in> node_of ` set rest"
      by (simp_all add: entry_ok_def)
    from Cons.prems(4)[OF e_in(1) True k0] have "kids d' (node_of e) = {}" .
    moreover from ex Cons.prems(2)[OF e_in(2)] Cons.prems(8)
    have "\<exists>r. d_assoc d' (node_of e) = Some (GraphRef r) \<and> r < length os' \<and> good_graph (os' ! r)"
      by auto
    moreover from par Cons.prems(3)[OF e_in(2)]
    have "\<forall>y. (y, node_of e) \<in> set (d_edges d') \<longrightarrow> y \<in> node_of ` set rest" by blast
    ultimately show ?thesis using True by (simp add: entry_ok_def)
  next
    case False
    with eo have key: "\<exists>k. d_assoc d (node_of e) = Some (Key k)"
      and ch: "\<forall>c\<in>kids d (node_of e). c \<in> A \<or> resolved d c"
      and tg: "x = Some (node_of e) \<or> tag_ok d e"
      and par: "\<forall>y. (y, node_of e) \<in> set (d_edges d) \<longrightarrow> y \<in> node_of ` set rest"
      by (simp_all add: entry_ok_def)
    from key Cons.prems(2)[OF e_in(2)] have "\<exists>k. d_assoc d' (node_of e) = Some (Key k)" by simp
    moreover have "\<forall>c\<in>kids d' (node_of e). c \<in> A' \<or> resolved d' c"
    proof
      fix c assume c: "c \<in> kids d' (node_of e)"
      show "c \<in> A' \<or> resolved d' c"
      proof (cases "c \<in> kids d (node_of e)")
        case True
        with ch Cons.prems(7)[OF e_in(1) True] show ?thesis by blast
      next
        case nk: False
        from Cons.prems(6)[OF e_in(1) False c nk] show ?thesis .
      qed
    qed
    moreover have "x' = Some (node_of e) \<or> tag_ok d' e"
    proof (cases "x = Some (node_of e)")
      case True
      with assms(9) show ?thesis by auto
    next
      case nx: False
      with tg have "tag_ok d e" by simp
      with Cons.prems(5)[OF e_in(1) False] have "tag_ok d' e"
        unfolding tag_ok_def by blast
      then show ?thesis by simp
    qed
    moreover from par Cons.prems(3)[OF e_in(2)]
    have "\<forall>y. (y, node_of e) \<in> set (d_edges d') \<longrightarrow> y \<in> node_of ` set rest" by blast
    ultimately show ?thesis using False by (simp add: entry_ok_def)
  qed
  moreover have "stack_ok x' os' d' (insert (node_of e) A') rest"
  proof (rule Cons.IH[OF so])
    show "\<And>u. u \<in> node_of ` set rest \<Longrightarrow> d_assoc d' u = d_assoc d u"
      using Cons.prems(2) by simp
    show "\<And>u y. u \<in> node_of ` set rest \<Longrightarrow> (y, u) \<in> set (d_edges d') \<Longrightarrow> (y, u) \<in> set (d_edges d)"
      using Cons.prems(3) by simp
    show "\<And>e. e \<in> set rest \<Longrightarrow> fst e \<Longrightarrow> kids d (node_of e) = {} \<Longrightarrow> kids d' (node_of e) = {}"
      using Cons.prems(4) by simp
    show "\<And>e. e \<in> set rest \<Longrightarrow> \<not> fst e \<Longrightarrow> kids d (node_of e) \<subseteq> kids d' (node_of e)"
      using Cons.prems(5) by simp
    show "\<And>ea c. ea \<in> set rest \<Longrightarrow> \<not> fst ea \<Longrightarrow> c \<in> kids d' (node_of ea) \<Longrightarrow> c \<notin> kids d (node_of ea)
            \<Longrightarrow> c \<in> insert (node_of e) A' \<or> resolved d' c"
    proof -
      fix ea c
      assume a: "ea \<in> set rest" "\<not> fst ea" "c \<in> kids d' (node_of ea)" "c \<notin> kids d (node_of ea)"
      from a(1) have m: "ea \<in> set (e # rest)" by simp
      from Cons.prems(6)[OF m a(2,3,4)] show "c \<in> insert (node_of e) A' \<or> resolved d' c" by auto
    qed
    show "\<And>ea c. ea \<in> set rest \<Longrightarrow> c \<in> kids d (node_of ea) \<Longrightarrow> c \<in> insert (node_of e) A \<or> resolved d c
            \<Longrightarrow> c \<in> insert (node_of e) A' \<or> resolved d' c"
    proof -
      fix ea c
      assume a: "ea \<in> set rest" "c \<in> kids d (node_of ea)" "c \<in> insert (node_of e) A \<or> resolved d c"
      from a(1) have m: "ea \<in> set (e # rest)" by simp
      show "c \<in> insert (node_of e) A' \<or> resolved d' c"
      proof (cases "c = node_of e")
        case True
        then show ?thesis by simp
      next
        case False
        with a(3) have "c \<in> A \<or> resolved d c" by simp
        from Cons.prems(7)[OF m a(2) this] show ?thesis by auto
      qed
    qed
    show "\<And>r. r < length os \<Longrightarrow> good_graph (os ! r) \<Longrightarrow> r < length os' \<and> good_graph (os' ! r)"
      using Cons.prems(8) by simp
  qed
  ultimately show ?case by simp
qed


lemma fresh_vertex_cong: "d_verts d = d_verts d' \<Longrightarrow> fresh_vertex d = fresh_vertex d'"
  by (simp add: fresh_vertex_def cong: option.case_cong)



lemma stack_ok_weaken:
  assumes "stack_ok None os d A st"
  shows "stack_ok x os d A st"
proof (rule stack_ok_frame[OF assms])
  show "x = None \<or> x \<noteq> None \<and> None = None" by auto
qed auto


subsection \<open>Pushing a child\<close>

definition push_node :: "nat \<Rightarrow> nat \<Rightarrow> wc_state \<Rightarrow> wc_state" where
  "push_node v ref s =
     s\<lparr>D := add_arc (set_vertex (add_vertex (D s)) (fresh_vertex (D s)) (GraphRef ref)) v (fresh_vertex (D s)),
       stack := (True, fresh_vertex (D s), (''_'', [])) # stack s\<rparr>"


lemma push_node_fields:
  "objs (push_node v ref s) = objs s"
  "d_verts (D (push_node v ref s)) = d_verts (D s) @ [fresh_vertex (D s)]"
  "d_edges (D (push_node v ref s)) = d_edges (D s) @ [(v, fresh_vertex (D s))]"
  "d_assoc (D (push_node v ref s)) = (d_assoc (D s))(fresh_vertex (D s) \<mapsto> GraphRef ref)"
  "cache (push_node v ref s) = cache s"
  "stack (push_node v ref s) = (True, fresh_vertex (D s), (''_'', [])) # stack s"
  by (simp_all add: push_node_def set_vertex_def add_vertex_def add_arc_def)





lemma node_of_simp [simp]: "node_of (b, v, c) = v"
  by (simp add: node_of_def)





lemma fresh_vertex_assoc [simp]: "fresh_vertex (d\<lparr>d_assoc := a\<rparr>) = fresh_vertex d"
  by (simp add: fresh_vertex_def cong: option.case_cong)

lemma fresh_vertex_add_assoc [simp]:
  "fresh_vertex (add_vertex (d\<lparr>d_assoc := a\<rparr>)) = fresh_vertex (add_vertex d)"
  by (rule fresh_vertex_cong) (simp add: add_vertex_def)

lemma fresh_vertex_push_node [simp]:
  "fresh_vertex (D (push_node v ref t)) = fresh_vertex (add_vertex (D t))"
  by (rule fresh_vertex_cong) (simp add: push_node_fields add_vertex_def)















end
